theory Spec2Isabelle
  imports Main
begin

section \<open>Warnings and thrown values\<close>

text \<open>
  The Warning shape used throughout the analyzer:
  \<^verbatim>\<open>{sourceRange: {file, start: {line, column}, end: {line, column}}, code, message, severity}\<close>.
\<close>

type_synonym url = string

record position =
  line :: nat
  column :: nat

record source_range =
  range_file :: url
  range_start :: position
  range_end :: position

datatype severity = ERROR | WARNING | INFO

record warning =
  sourceRange :: source_range
  code :: string
  message :: string
  severity :: severity

text \<open>
  The values the code throws and catches. \<open>NoKnownParserError\<close> and
  \<open>WarningCarryingException\<close> are the two classes the source tests with
  \<^verbatim>\<open>instanceof\<close>; \<open>Error\<close> is a plain \<^verbatim>\<open>new Error(message)\<close>.
\<close>

datatype js_error =
    NoKnownParserError string
  | WarningCarryingException warning
  | Error string

section \<open>Deferred\<close>

text \<open>
  Modelled from the spec: \<^verbatim>\<open>Deferred\<close>, imported from \<^verbatim>\<open>'../utils'\<close>, is not among the
  sources. The spec: "a single-assignment cell: created empty, later completed exactly once
  with a value (or failure), observable by any number of waiters who suspend until
  completion". \<open>completion d = None\<close> is the empty cell, whose promise stays pending.
\<close>

datatype 'a deferred = Deferred (completion: "'a option")

text \<open>Modelled from the spec: \<^verbatim>\<open>new Deferred()\<close>, "created empty".\<close>

definition new_Deferred :: "'a deferred" where
  "new_Deferred = Deferred None"

text \<open>
  Modelled from the spec: \<^verbatim>\<open>Deferred.resolve(value)\<close>. The spec: recording "fails (by
  construction) if called twice for the same key in the same instance", "a logic error to
  guard against with an explicit check": completing a cell that is complete throws.
\<close>

definition deferred_resolve :: "'a deferred \<Rightarrow> 'a \<Rightarrow> js_error + 'a deferred" where
  "deferred_resolve d v =
     (case completion d of
        Some _ \<Rightarrow> Inl (Error ''Already resolved'')
      | None \<Rightarrow> Inr (Deferred (Some v)))"

section \<open>AsyncCyclicTransitivePromiseAll\<close>

text \<open>
  \<^verbatim>\<open>private _deferreds = new Map<Key, Deferred<Key[]>>()\<close>. The Deferred objects are
  shared by reference between the map, \<^verbatim>\<open>resolve\<close> and the waiters; in the model the
  map entry is the object, so completing a Deferred writes the entry back.
\<close>

record 'k promise_all =
  deferreds :: "'k \<rightharpoonup> 'k list deferred"

definition new_AsyncCyclicTransitivePromiseAll :: "'k promise_all" where
  "new_AsyncCyclicTransitivePromiseAll = \<lparr> deferreds = Map.empty \<rparr>"

text \<open>
  \<^verbatim>\<open>const deferred = this._deferreds.get(key) || new Deferred<Key[]>();
  this._deferreds.set(key, deferred); return deferred;\<close>
\<close>

definition getDeferredFor :: "'k \<Rightarrow> 'k promise_all \<Rightarrow> 'k list deferred \<times> 'k promise_all" where
  "getDeferredFor key s =
     (let deferred = (case deferreds s key of Some d \<Rightarrow> d | None \<Rightarrow> new_Deferred)
      in (deferred, s\<lparr> deferreds := (deferreds s)(key \<mapsto> deferred) \<rparr>))"

text \<open>\<^verbatim>\<open>resolve(key, deps) { this._getDeferredFor(key).resolve(Array.from(deps)); }\<close>\<close>

definition resolve :: "'k \<Rightarrow> 'k list \<Rightarrow> 'k promise_all \<Rightarrow> js_error + 'k promise_all" where
  "resolve key deps s =
     (case getDeferredFor key s of
        (deferred, s') \<Rightarrow>
          (case deferred_resolve deferred deps of
             Inl e \<Rightarrow> Inl e
           | Inr deferred' \<Rightarrow> Inr (s'\<lparr> deferreds := (deferreds s')(key \<mapsto> deferred') \<rparr>)))"

text \<open>
  The traversal. A Deferred is completed at most once, so what
  \<^verbatim>\<open>await this._getDeferredFor(key).promise\<close> yields does not depend on when it is
  awaited: the model runs the traversal against the instance as it finally stands.
  The await of a Deferred that is never completed never returns: \<open>Blocked key\<close>.
  The recursion follows recorded successors, which may go on for ever in an unbounded
  relation, so the functions take fuel: \<open>None\<close> is "fuel exhausted".

  \<open>visited\<close> is the \<^verbatim>\<open>Set<Key>\<close> shared by the whole traversal; \<open>visits\<close> logs every
  execution of \<^verbatim>\<open>visited.add(key)\<close>, in order.
\<close>

datatype 'k traversal = Returned "'k set" "'k list" | Blocked 'k

fun transitiveAwait ::
    "nat \<Rightarrow> 'k \<Rightarrow> 'k set \<Rightarrow> 'k list \<Rightarrow> 'k promise_all \<Rightarrow> ('k traversal \<times> 'k promise_all) option"
  and awaitDeps ::
    "nat \<Rightarrow> 'k list \<Rightarrow> 'k set \<Rightarrow> 'k list \<Rightarrow> 'k promise_all \<Rightarrow> ('k traversal \<times> 'k promise_all) option"
where
  "transitiveAwait 0 key visited visits s = None"
| "transitiveAwait (Suc n) key visited visits s =
     (if key \<in> visited then Some (Returned visited visits, s)
      else
        (case getDeferredFor key s of
           (deferred, s') \<Rightarrow>
             (case completion deferred of
                None \<Rightarrow> Some (Blocked key, s')
              | Some deps \<Rightarrow> awaitDeps n deps (insert key visited) (visits @ [key]) s')))"
| "awaitDeps n [] visited visits s = Some (Returned visited visits, s)"
| "awaitDeps n (dep # deps) visited visits s =
     (case transitiveAwait n dep visited visits s of
        None \<Rightarrow> None
      | Some (Blocked k, s') \<Rightarrow> Some (Blocked k, s')
      | Some (Returned visited' visits', s') \<Rightarrow> awaitDeps n deps visited' visits' s')"

text \<open>\<^verbatim>\<open>await this._transitiveAwait(key, new Set<Key>())\<close>\<close>

definition promiseAllTransitive ::
    "nat \<Rightarrow> 'k \<Rightarrow> 'k promise_all \<Rightarrow> ('k traversal \<times> 'k promise_all) option" where
  "promiseAllTransitive n key s = transitiveAwait n key {} [] s"

text \<open>
  The recorded successor relation of an instance and what it reaches: \<open>successors s k\<close> is
  the list \<^verbatim>\<open>resolve(k, deps)\<close> recorded, \<open>None\<close> while nothing is recorded for \<open>k\<close>.
\<close>

definition successors :: "'k promise_all \<Rightarrow> 'k \<Rightarrow> 'k list option" where
  "successors s k = (case deferreds s k of None \<Rightarrow> None | Some d \<Rightarrow> completion d)"

definition edges :: "'k promise_all \<Rightarrow> ('k \<times> 'k) set" where
  "edges s = {(a, b). \<exists>ds. successors s a = Some ds \<and> b \<in> set ds}"

definition reachable :: "'k promise_all \<Rightarrow> 'k \<Rightarrow> 'k set" where
  "reachable s key = (edges s)\<^sup>* `` {key}"

text \<open>A caller that records one successor list after the other, stopping at the first failure.\<close>

fun recordAll :: "('k \<times> 'k list) list \<Rightarrow> 'k promise_all \<Rightarrow> js_error + 'k promise_all" where
  "recordAll [] s = Inr s"
| "recordAll ((key, deps) # rest) s =
     (case resolve key deps s of Inl e \<Rightarrow> Inl e | Inr s' \<Rightarrow> recordAll rest s')"

text \<open>The cyclic relation A \<rightarrow> {B}, B \<rightarrow> {A}.\<close>

definition cyclic_AB :: "string promise_all" where
  "cyclic_AB = \<lparr> deferreds = [''A'' \<mapsto> Deferred (Some [''B'']), ''B'' \<mapsto> Deferred (Some [''A''])] \<rparr>"

text \<open>
  What a traversal that returned has done, between the visited set \<open>V\<close> with log \<open>L\<close> it
  started from and the \<open>V'\<close>, \<open>L'\<close> it ended with: it only added keys, logged each added key
  once, every added key has recorded successors that are all visited at the end, and every
  added key lies in \<open>R\<close>.
\<close>

definition extends ::
    "'k promise_all \<Rightarrow> 'k set \<Rightarrow> 'k list \<Rightarrow> 'k set \<Rightarrow> 'k list \<Rightarrow> 'k set \<Rightarrow> bool" where
  "extends s V L V' L' R \<longleftrightarrow>
     V \<subseteq> V' \<and> (\<exists>N. L' = L @ N \<and> distinct N \<and> set N = V' - V) \<and>
     (\<forall>k\<in>V' - V. \<exists>ds. successors s k = Some ds \<and> set ds \<subseteq> V') \<and> V' - V \<subseteq> R"

section \<open>Keyed memoization cache\<close>

text \<open>
  Modelled from the spec: the Keyed Memoization Cache (\<^verbatim>\<open>AsyncWorkCache\<close>, the type of the
  four \<^verbatim>\<open>...Promises\<close> fields of the Analysis Cache) is not among the sources. The spec: a
  "mapping from key to Memoized Computation", the computation being "created the first
  time a key is requested; reused for every subsequent request for the same key within the
  same cache instance; never recomputed once created, even if it later fails". \<open>'p\<close> is the
  pending-or-settled computation handed to the callers; \<open>invocations\<close> logs every call of a
  \<open>computeFn\<close>, in order.
\<close>

record ('k, 'p) work_cache =
  keyToResultMap :: "'k \<rightharpoonup> 'p"
  invocations :: "'k list"

text \<open>Modelled from the spec: a new cache has no entry.\<close>

definition new_AsyncWorkCache :: "('k, 'p) work_cache" where
  "new_AsyncWorkCache = \<lparr> keyToResultMap = Map.empty, invocations = [] \<rparr>"

text \<open>
  Modelled from the spec: \<^verbatim>\<open>getOrCompute(key, computeFn)\<close>. The spec: "if no entry exists for
  key, creates one by invoking computeFn() exactly once and storing the resulting (pending)
  computation before computeFn is allowed to suspend again; all callers, including ones
  that arrive while the first call is still pending, receive the same computation and thus
  the same eventual result or failure". The runtime is single-threaded and cooperative, so
  the check and the store are one step.
\<close>

definition getOrCompute ::
    "'k \<Rightarrow> (unit \<Rightarrow> 'p) \<Rightarrow> ('k, 'p) work_cache \<Rightarrow> 'p \<times> ('k, 'p) work_cache" where
  "getOrCompute key compute c =
     (case keyToResultMap c key of
        Some cachedResult \<Rightarrow> (cachedResult, c)
      | None \<Rightarrow>
          (let promise = compute ()
           in (promise, c\<lparr> keyToResultMap := (keyToResultMap c)(key \<mapsto> promise),
                            invocations := invocations c @ [key] \<rparr>)))"

text \<open>
  Requests issued one after the other against one cache, none waiting for an earlier one to
  settle: each gets the computation the cache hands out.
\<close>

fun requests ::
    "('k \<times> (unit \<Rightarrow> 'p)) list \<Rightarrow> ('k, 'p) work_cache \<Rightarrow> ('k \<times> 'p) list \<times> ('k, 'p) work_cache" where
  "requests [] c = ([], c)"
| "requests ((key, compute) # rest) c =
     (case getOrCompute key compute c of
        (promise, c') \<Rightarrow> (case requests rest c' of (ps, c'') \<Rightarrow> ((key, promise) # ps, c'')))"

text \<open>
  The cache's log and map agree: a computation was invoked for exactly the keys that have
  an entry, once each.
\<close>

definition memo_inv :: "('k, 'p) work_cache \<Rightarrow> bool" where
  "memo_inv c \<longleftrightarrow> distinct (invocations c) \<and> set (invocations c) = dom (keyToResultMap c)"

section \<open>The analyzer's data\<close>

text \<open>
  \<^verbatim>\<open>contents?: string\<close>: an argument left out is \<open>Undefined\<close>; \<open>Null\<close> is what a caller
  outside the type checker can still pass, and \<^verbatim>\<open>providedContents == null\<close> holds for both.
\<close>

datatype contents_arg = Undefined | Null | Contents string

record location_offset =
  offset_line :: nat
  offset_col :: nat
  offset_filename :: "url option"

type_synonym ast_node = nat

record inline_info =
  locationOffset :: location_offset
  astNode :: ast_node

text \<open>
  A \<^verbatim>\<open>ParsedDocument\<close>, as far as the context looks into it: its url, its type (the key into
  the scanner table) and whether it is an inline document. Parsers are collaborators:
  \<^verbatim>\<open>parser.parse(contents, url, inlineInfo)\<close> returns a document or throws.
\<close>

record parsed_document =
  doc_url :: url
  doc_type :: string
  doc_isInline :: bool
  doc_contents :: string

type_synonym parser = "string \<Rightarrow> url \<Rightarrow> inline_info option \<Rightarrow> js_error + parsed_document"

text \<open>
  The scanned features the context tells apart with \<^verbatim>\<open>instanceof\<close>:
  \<^item> \<open>ScannedImport type url sourceRange urlSourceRange\<close>;
  \<^item> \<open>ScannedInlineDocument type contents locationOffset attachedComment astNode scannedDocument\<close>,
    the last being the slot \<^verbatim>\<open>feature.scannedDocument\<close>, filled once the inline document is
    scanned;
  \<^item> \<open>ScannedElement\<close>, which accepts an HTML comment;
  \<^item> any other feature.
  ScannedDocument objects are mutated after they have been stored in the caches (warnings
  are pushed, inline documents attached), so they live in a store of objects and the
  caches hold their addresses.
\<close>

datatype feature =
    ScannedImport string url source_range "source_range option"
  | ScannedInlineDocument string string location_offset "string option" ast_node "nat option"
  | ScannedElement string
  | ScannedFeature string

record scanned_document =
  document :: parsed_document
  features :: "feature list"
  warnings :: "warning list"

type_synonym lazy_edge_map = "url \<rightharpoonup> url list"

datatype scanner =
    HtmlImportScanner "lazy_edge_map option"
  | HtmlScriptScanner
  | HtmlStyleScanner
  | DomModuleScanner
  | CssImportScanner
  | HtmlCustomElementReferenceScanner
  | PseudoElementScanner
  | PolymerElementScanner
  | BehaviorScanner
  | VanillaElementScanner
  | Scanner string

record url_loader =
  canLoad :: "url \<Rightarrow> bool"
  loader_load :: "url \<Rightarrow> js_error + string"
  readDirectory :: "(string \<Rightarrow> bool \<Rightarrow> js_error + string list) option"

record url_resolver =
  canResolve :: "url \<Rightarrow> bool"
  resolver_resolve :: "url \<Rightarrow> url"

text \<open>
  What the context calls and the sources do not hold is a parameter of the model:
  Node's \<^verbatim>\<open>path.extname\<close> and \<^verbatim>\<open>path.dirname\<close>, \<^verbatim>\<open>scan(document, scanners)\<close> of
  \<^verbatim>\<open>'../scanning/scan'\<close>, \<^verbatim>\<open>ScannedElement.applyHtmlComment\<close>,
  \<^verbatim>\<open>ScannedDocument.getNestedFeatures\<close> (given the object store, to follow the slots of
  inline documents), and the parser objects of the default parser table.
\<close>

record externals =
  path_extname :: "string \<Rightarrow> string"
  path_dirname :: "string \<Rightarrow> string"
  runScanners :: "parsed_document \<Rightarrow> scanner list \<Rightarrow> js_error + feature list"
  applyHtmlComment :: "string option \<Rightarrow> feature \<Rightarrow> feature"
  getNestedFeatures :: "(nat \<rightharpoonup> scanned_document) \<Rightarrow> scanned_document \<Rightarrow> feature list"
  defaultParsers :: "string \<rightharpoonup> parser"

text \<open>
  A promise, by what becomes of it: \<open>Pending\<close> is a promise that is not settled, and as the
  result of a whole call one that never settles.
\<close>

datatype 'a promise = Pending | Fulfilled 'a | Rejected js_error

text \<open>\<^verbatim>\<open>new Document(scannedDocument, this)\<close>, by the address of its scanned document.\<close>

datatype document = Document nat

text \<open>
  The entry of \<^verbatim>\<open>dependenciesScannedPromises\<close> for a URL, that is the state of the
  computation \<^verbatim>\<open>_scan\<close> memoizes: \<open>Scanning\<close> while its local scan runs;
  \<open>AwaitingReady r\<close> once the local scan has produced the ScannedDocument at address \<open>r\<close>
  and the import scans are fired, all that is left being
  \<^verbatim>\<open>await this._cache.dependencyGraph.whenReady(resolvedUrl)\<close>; \<open>ScanFailed e\<close> when the local
  scan threw \<open>e\<close>, which rejects the promise.
\<close>

datatype scan_job = Scanning | AwaitingReady nat | ScanFailed js_error

text \<open>
  Modelled from the spec: \<^verbatim>\<open>AnalysisCache\<close> (\<^verbatim>\<open>'./analysis-cache'\<close>) is not among the sources.
  The spec: it owns the load/parse cache, the local-scan cache, the transitive-scan cache,
  the synchronous scanned-document and analyzed-document tables, the analyze cache and the
  Dependency Graph. The fields carry the names the context uses. The memoization caches
  follow the discipline of \<open>getOrCompute\<close> above: an entry is made by the first request for
  its key and never replaced by a later request; here each entry holds what became of the
  memoized computation. \<open>objects\<close> is the store of ScannedDocument objects and \<open>nextObject\<close>
  the next free address.
\<close>

record cache_state =
  parsedDocumentPromises :: "url \<rightharpoonup> parsed_document promise"
  scannedDocumentPromises :: "url \<rightharpoonup> nat promise"
  dependenciesScannedPromises :: "url \<rightharpoonup> scan_job"
  analyzedDocumentPromises :: "url \<rightharpoonup> document option promise"
  scannedDocuments :: "url \<rightharpoonup> nat"
  analyzedDocuments :: "url \<rightharpoonup> document"
  dependencyGraph :: "url promise_all"
  objects :: "nat \<rightharpoonup> scanned_document"
  nextObject :: nat

text \<open>Modelled from the spec: \<^verbatim>\<open>new AnalysisCache()\<close>, with every cache and table empty.\<close>

definition new_AnalysisCache :: cache_state where
  "new_AnalysisCache =
     \<lparr> parsedDocumentPromises = Map.empty, scannedDocumentPromises = Map.empty,
       dependenciesScannedPromises = Map.empty, analyzedDocumentPromises = Map.empty,
       scannedDocuments = Map.empty, analyzedDocuments = Map.empty,
       dependencyGraph = new_AsyncCyclicTransitivePromiseAll,
       objects = Map.empty, nextObject = 0 \<rparr>"

text \<open>
  Modelled from the spec: \<^verbatim>\<open>DependencyGraph.addDocument\<close>; the class is not among the sources.
  The spec: the graph is "built directly on" the Cyclic Transitive Join, and
  "addDocument(url, importUrls) calls recordSuccessors(url, importUrls)".
\<close>

definition addDocument :: "url \<Rightarrow> url list \<Rightarrow> url promise_all \<Rightarrow> js_error + url promise_all" where
  "addDocument u importUrls g = resolve u importUrls g"

text \<open>
  Modelled from the spec: \<^verbatim>\<open>DependencyGraph.whenReady\<close>. The spec: "whenReady(url) calls
  joinTransitive(url)".
\<close>

definition whenReady :: "nat \<Rightarrow> url \<Rightarrow> url promise_all \<Rightarrow> (url traversal \<times> url promise_all) option" where
  "whenReady n u g = promiseAllTransitive n u g"

text \<open>
  The constructor's \<^verbatim>\<open>Options\<close> and the fields of an \<^verbatim>\<open>AnalyzerCacheContext\<close>. The parser
  table, scanner table, loader, resolver and lazy-edge map are never written after
  construction. \<open>cache\<close> and \<open>telemetryTracker\<close> are the addresses of the AnalysisCache and
  TelemetryTracker objects the context holds; the objects live in the \<open>heap\<close>.
\<close>

record analyzer_options =
  opt_urlLoader :: url_loader
  opt_urlResolver :: "url_resolver option"
  opt_parsers :: "(string \<rightharpoonup> parser) option"
  opt_lazyEdges :: "lazy_edge_map option"
  opt_scanners :: "(string \<rightharpoonup> scanner list) option"

record analyzer_context =
  parsers :: "string \<rightharpoonup> parser"
  lazyEdges :: "lazy_edge_map option"
  scanners :: "string \<rightharpoonup> scanner list"
  loader :: url_loader
  resolver :: "url_resolver option"
  cache :: nat
  telemetryTracker :: nat
  generation :: nat

record heap =
  analysisCaches :: "nat \<rightharpoonup> cache_state"
  telemetryTrackers :: "nat \<rightharpoonup> (string \<times> string) list"
  nextAddress :: nat

section \<open>The pipeline of a context\<close>

text \<open>
  The pipeline functions take the context (for its parser table, scanner table, loader and
  resolver) and the contents of the AnalysisCache it holds, and return the cache as they
  leave it. The calls to the telemetry tracker do not bear on any result and are left out.
  Functions that recurse through inline documents or imports take fuel; \<open>None\<close> is "fuel
  exhausted", never a result of the code.

  \<open>error_message e\<close> is \<^verbatim>\<open>e.message\<close>; \<open>message_or_self e\<close> is \<^verbatim>\<open>e.message || e\<close> inside a
  template string, where an Error with an empty message prints as its name.
\<close>

fun error_message :: "js_error \<Rightarrow> string" where
  "error_message (NoKnownParserError m) = m"
| "error_message (WarningCarryingException w) = message w"
| "error_message (Error m) = m"

definition message_or_self :: "js_error \<Rightarrow> string" where
  "message_or_self e = (if error_message e = [] then ''Error'' else error_message e)"

definition toPromise :: "js_error + 'a \<Rightarrow> 'a promise" where
  "toPromise r = (case r of Inl e \<Rightarrow> Rejected e | Inr v \<Rightarrow> Fulfilled v)"

text \<open>
  \<^verbatim>\<open>return this._resolver && this._resolver.canResolve(url) ? this._resolver.resolve(url) : url;\<close>
\<close>

definition resolveUrl :: "analyzer_context \<Rightarrow> url \<Rightarrow> url" where
  "resolveUrl ctx u =
     (case resolver ctx of
        None \<Rightarrow> u
      | Some r \<Rightarrow> if canResolve r u then resolver_resolve r u else u)"

text \<open>
  \<^verbatim>\<open>load(resolvedUrl, providedContents)\<close>. The second component lists the calls of the
  loader's \<^verbatim>\<open>load\<close> that the call made.
\<close>

definition load :: "analyzer_context \<Rightarrow> url \<Rightarrow> contents_arg \<Rightarrow> (js_error + string) \<times> url list" where
  "load ctx resolvedUrl providedContents =
     (if \<not> canLoad (loader ctx) resolvedUrl
      then (Inl (Error (''Can't load URL: '' @ resolvedUrl)), [])
      else (case providedContents of
              Undefined \<Rightarrow> (loader_load (loader ctx) resolvedUrl, [resolvedUrl])
            | Null \<Rightarrow> (loader_load (loader ctx) resolvedUrl, [resolvedUrl])
            | Contents s \<Rightarrow> (Inr s, [])))"

text \<open>
  \<^verbatim>\<open>_parseContents(type, contents, url, inlineInfo)\<close>. A failure of the parser that is not a
  WarningCarryingException is wrapped in a new Error whose message quotes the stack of the
  original; of the stack the model keeps the first line.
\<close>

definition parseContents ::
    "analyzer_context \<Rightarrow> string \<Rightarrow> string \<Rightarrow> url \<Rightarrow> inline_info option \<Rightarrow> js_error + parsed_document" where
  "parseContents ctx type contents u inlineInfo =
     (case parsers ctx type of
        None \<Rightarrow> Inl (NoKnownParserError (''No parser for for file type '' @ type))
      | Some parser \<Rightarrow>
          (case parser contents u inlineInfo of
             Inr parsedDoc \<Rightarrow> Inr parsedDoc
           | Inl (WarningCarryingException w) \<Rightarrow> Inl (WarningCarryingException w)
           | Inl error \<Rightarrow>
               Inl (Error (''Error parsing '' @ u @ '':'' @ [CHR 0x0A] @ '' Error: '' @ error_message error))))"

text \<open>
  \<^verbatim>\<open>_parse(resolvedUrl, providedContents)\<close>: memoized in \<^verbatim>\<open>parsedDocumentPromises\<close> under
  \<^verbatim>\<open>resolvedUrl\<close>; \<^verbatim>\<open>path.extname(resolvedUrl).substring(1)\<close> picks the parser.
\<close>

definition parse ::
    "externals \<Rightarrow> analyzer_context \<Rightarrow> url \<Rightarrow> contents_arg \<Rightarrow> cache_state \<Rightarrow>
       parsed_document promise \<times> cache_state" where
  "parse ext ctx resolvedUrl providedContents c =
     (case parsedDocumentPromises c resolvedUrl of
        Some p \<Rightarrow> (p, c)
      | None \<Rightarrow>
          (let p = (case fst (load ctx resolvedUrl providedContents) of
                      Inl e \<Rightarrow> Rejected e
                    | Inr content \<Rightarrow>
                        toPromise (parseContents ctx (drop 1 (path_extname ext resolvedUrl))
                                     content resolvedUrl None))
           in (p, c\<lparr> parsedDocumentPromises := (parsedDocumentPromises c)(resolvedUrl \<mapsto> p) \<rparr>)))"

text \<open>\<^verbatim>\<open>_getScannedFeatures(document)\<close>\<close>

definition getScannedFeatures ::
    "externals \<Rightarrow> analyzer_context \<Rightarrow> parsed_document \<Rightarrow> js_error + feature list" where
  "getScannedFeatures ext ctx parsedDoc =
     (case scanners ctx (doc_type parsedDoc) of
        Some ss \<Rightarrow> runScanners ext parsedDoc ss
      | None \<Rightarrow> Inr [])"

text \<open>
  \<^verbatim>\<open>if (firstScannedFeature && firstScannedFeature instanceof ScannedElement)
    firstScannedFeature.applyHtmlComment(maybeAttachedComment);\<close>
\<close>

fun applyToFirst :: "externals \<Rightarrow> string option \<Rightarrow> feature list \<Rightarrow> feature list" where
  "applyToFirst ext maybeAttachedComment (ScannedElement e # rest) =
     applyHtmlComment ext maybeAttachedComment (ScannedElement e) # rest"
| "applyToFirst ext maybeAttachedComment fs = fs"

text \<open>\<^verbatim>\<open>scannedDocument.warnings.push(w)\<close> on the object at address \<open>r\<close>.\<close>

definition pushWarning :: "nat \<Rightarrow> warning \<Rightarrow> cache_state \<Rightarrow> cache_state" where
  "pushWarning r w c =
     (case objects c r of
        None \<Rightarrow> c
      | Some d \<Rightarrow> c\<lparr> objects := (objects c)(r \<mapsto> d\<lparr> warnings := warnings d @ [w] \<rparr>) \<rparr>)"

text \<open>
  \<^verbatim>\<open>feature.scannedDocument = scannedDoc\<close> on the \<open>i\<close>-th feature of the object at \<open>r\<close>; the
  position comes from the enumeration of that very list, so it lies within it.
\<close>

fun setScannedDocument :: "nat \<Rightarrow> feature \<Rightarrow> feature" where
  "setScannedDocument r (ScannedInlineDocument t cs off cm node sd) =
     ScannedInlineDocument t cs off cm node (Some r)"
| "setScannedDocument r f = f"

definition attachScannedDocument :: "nat \<Rightarrow> nat \<Rightarrow> nat \<Rightarrow> cache_state \<Rightarrow> cache_state" where
  "attachScannedDocument r i r' c =
     (case objects c r of
        None \<Rightarrow> c
      | Some d \<Rightarrow>
          c\<lparr> objects := (objects c)
                (r \<mapsto> d\<lparr> features := (features d)[i := setScannedDocument r' (features d ! i)] \<rparr>) \<rparr>)"

text \<open>
  \<^verbatim>\<open>_scanDocument(document, maybeAttachedComment)\<close> and \<^verbatim>\<open>_scanInlineDocuments\<close>. The url and
  the \<^verbatim>\<open>isInline\<close> of a ScannedDocument are those of its parsed document. The new object gets
  the next free address; a document that is not inline is entered in
  \<^verbatim>\<open>scannedDocuments\<close>, unless its url is there already, which throws. The loop over the
  features runs over their positions, since it writes the slot of the feature it is at.
  The result is the address of the new object or what was thrown; the cache keeps what
  was done before a throw.
\<close>

fun scanDocument ::
    "nat \<Rightarrow> externals \<Rightarrow> analyzer_context \<Rightarrow> parsed_document \<Rightarrow> string option \<Rightarrow> cache_state \<Rightarrow>
       ((js_error + nat) \<times> cache_state) option"
  and scanInlineDocuments ::
    "nat \<Rightarrow> externals \<Rightarrow> analyzer_context \<Rightarrow> nat \<Rightarrow> url \<Rightarrow> (nat \<times> feature) list \<Rightarrow> cache_state \<Rightarrow>
       (js_error option \<times> cache_state) option"
where
  "scanDocument 0 ext ctx parsedDoc maybeAttachedComment c = None"
| "scanDocument (Suc n) ext ctx parsedDoc maybeAttachedComment c =
     (case getScannedFeatures ext ctx parsedDoc of
        Inl e \<Rightarrow> Some (Inl e, c)
      | Inr scannedFeatures \<Rightarrow>
          (let fs = applyToFirst ext maybeAttachedComment scannedFeatures;
               r = nextObject c;
               c1 = c\<lparr> objects := (objects c)
                         (r \<mapsto> \<lparr> document = parsedDoc, features = fs, warnings = [] \<rparr>),
                       nextObject := Suc r \<rparr>
           in if \<not> doc_isInline parsedDoc \<and> scannedDocuments c1 (doc_url parsedDoc) \<noteq> None
              then Some (Inl (Error ''Scanned document already in cache. This should never happen.''), c1)
              else
                (let c2 = (if doc_isInline parsedDoc then c1
                           else c1\<lparr> scannedDocuments := (scannedDocuments c1)(doc_url parsedDoc \<mapsto> r) \<rparr>)
                 in (case scanInlineDocuments n ext ctx r (doc_url parsedDoc) (enumerate 0 fs) c2 of
                       None \<Rightarrow> None
                     | Some (Some e, c3) \<Rightarrow> Some (Inl e, c3)
                     | Some (None, c3) \<Rightarrow> Some (Inr r, c3)))))"
| "scanInlineDocuments n ext ctx r containingUrl [] c = Some (None, c)"
| "scanInlineDocuments n ext ctx r containingUrl ((i, ScannedInlineDocument t cs off cm node sd) # rest) c =
     (case parseContents ctx t cs containingUrl
             (Some \<lparr> locationOffset = \<lparr> offset_line = offset_line off, offset_col = offset_col off,
                                         offset_filename = Some containingUrl \<rparr>,
                     astNode = node \<rparr>) of
        Inl (WarningCarryingException w) \<Rightarrow>
          scanInlineDocuments n ext ctx r containingUrl rest (pushWarning r w c)
      | Inl e \<Rightarrow> Some (Some e, c)
      | Inr parsedDoc \<Rightarrow>
          (case scanDocument n ext ctx parsedDoc cm c of
             None \<Rightarrow> None
           | Some (Inl (WarningCarryingException w), c1) \<Rightarrow>
               scanInlineDocuments n ext ctx r containingUrl rest (pushWarning r w c1)
           | Some (Inl e, c1) \<Rightarrow> Some (Some e, c1)
           | Some (Inr r', c1) \<Rightarrow>
               scanInlineDocuments n ext ctx r containingUrl rest (attachScannedDocument r i r' c1)))"
| "scanInlineDocuments n ext ctx r containingUrl ((i, f) # rest) c =
     scanInlineDocuments n ext ctx r containingUrl rest c"

text \<open>
  \<^verbatim>\<open>scannedDocument.getNestedFeatures().filter(
     (e) => e instanceof ScannedImport && e.type !== 'lazy-html-import')\<close>,
  for the ScannedDocument at address \<open>r\<close>.
\<close>

fun isEagerImport :: "feature \<Rightarrow> bool" where
  "isEagerImport (ScannedImport t u sr usr) = (t \<noteq> ''lazy-html-import'')"
| "isEagerImport f = False"

fun importUrl :: "feature \<Rightarrow> url" where
  "importUrl (ScannedImport t u sr usr) = u"
| "importUrl f = []"

definition eagerImports :: "externals \<Rightarrow> cache_state \<Rightarrow> nat \<Rightarrow> feature list" where
  "eagerImports ext c r =
     (case objects c r of
        None \<Rightarrow> []
      | Some scannedDocument \<Rightarrow> filter isEagerImport (getNestedFeatures ext (objects c) scannedDocument))"

text \<open>
  \<^verbatim>\<open>_scanLocal(resolvedUrl, contents)\<close>: memoized in \<^verbatim>\<open>scannedDocumentPromises\<close>. Only a
  local scan that got through parsing and scanning reaches
  \<^verbatim>\<open>this._cache.dependencyGraph.addDocument(resolvedUrl, importUrls)\<close>.
\<close>

definition settleScanned :: "url \<Rightarrow> nat promise \<Rightarrow> cache_state \<Rightarrow> nat promise \<times> cache_state" where
  "settleScanned resolvedUrl p c =
     (p, c\<lparr> scannedDocumentPromises := (scannedDocumentPromises c)(resolvedUrl \<mapsto> p) \<rparr>)"

definition scanLocal ::
    "nat \<Rightarrow> externals \<Rightarrow> analyzer_context \<Rightarrow> url \<Rightarrow> contents_arg \<Rightarrow> cache_state \<Rightarrow>
       (nat promise \<times> cache_state) option" where
  "scanLocal n ext ctx resolvedUrl contents c =
     (case scannedDocumentPromises c resolvedUrl of
        Some p \<Rightarrow> Some (p, c)
      | None \<Rightarrow>
          (case parse ext ctx resolvedUrl contents c of
             (Pending, c1) \<Rightarrow> Some (settleScanned resolvedUrl Pending c1)
           | (Rejected e, c1) \<Rightarrow> Some (settleScanned resolvedUrl (Rejected e) c1)
           | (Fulfilled parsedDoc, c1) \<Rightarrow>
               (case scanDocument n ext ctx parsedDoc None c1 of
                  None \<Rightarrow> None
                | Some (Inl e, c2) \<Rightarrow> Some (settleScanned resolvedUrl (Rejected e) c2)
                | Some (Inr r, c2) \<Rightarrow>
                    (let imports = eagerImports ext c2 r;
                         importUrls = map (\<lambda>i. resolveUrl ctx (importUrl i)) imports
                     in (case addDocument resolvedUrl importUrls (dependencyGraph c2) of
                           Inl e \<Rightarrow> Some (settleScanned resolvedUrl (Rejected e) c2)
                         | Inr g \<Rightarrow>
                             Some (settleScanned resolvedUrl (Fulfilled r)
                                     (c2\<lparr> dependencyGraph := g \<rparr>)))))))"

text \<open>
  The handler of a failed import scan in \<^verbatim>\<open>_scan\<close>:
  \<^verbatim>\<open>catch (error) {
    if (error instanceof NoKnownParserError) {
      // We probably don't want to fail when importing something
      // that we don't know about here.
    }
    error = error || '';
    scannedDocument.warnings.push({code: 'could-not-load',
      message: ..., sourceRange: (scannedImport.urlSourceRange || scannedImport.sourceRange)!,
      severity: Severity.ERROR});
  }\<close>
  The branch for NoKnownParserError holds the comment and no statement, so control goes on
  to the push for every error: \<open>couldNotLoad\<close> is the warning pushed.
\<close>

fun importSourceRange :: "feature \<Rightarrow> source_range" where
  "importSourceRange (ScannedImport t u sr (Some usr)) = usr"
| "importSourceRange (ScannedImport t u sr None) = sr"
| "importSourceRange f = \<lparr> range_file = [], range_start = \<lparr> line = 0, column = 0 \<rparr>,
                            range_end = \<lparr> line = 0, column = 0 \<rparr> \<rparr>"

definition couldNotLoad :: "js_error \<Rightarrow> feature \<Rightarrow> warning" where
  "couldNotLoad error scannedImport =
     \<lparr> sourceRange = importSourceRange scannedImport,
       code = ''could-not-load'',
       message = ''Unable to load import: '' @ message_or_self error,
       severity = ERROR \<rparr>"

definition setScanJob :: "url \<Rightarrow> scan_job \<Rightarrow> cache_state \<Rightarrow> cache_state" where
  "setScanJob resolvedUrl j c =
     c\<lparr> dependenciesScannedPromises := (dependenciesScannedPromises c)(resolvedUrl \<mapsto> j) \<rparr>"

text \<open>
  \<^verbatim>\<open>_scan(resolvedUrl, contents)\<close>, memoized in \<^verbatim>\<open>dependenciesScannedPromises\<close>, in two parts.

  \<open>scanLaunch\<close> is the computation up to its last await: the local scan, then for every
  eager import the task \<^verbatim>\<open>(async() => { try { return await this._scan(importUrl); } catch
  ... })()\<close>. The tasks are fired and not awaited, and each import's own scan fires its
  imports in turn; the model runs each fired task where it is fired. A task only needs to
  know whether the import's scan is rejected, and a scan is rejected exactly when its
  local scan threw (\<open>ScanFailed\<close>); a scan met again through a cycle of imports is past
  its local scan, hence \<open>AwaitingReady\<close>. The warnings of a document are pushed in the
  order of its imports (in the code, in the order the scans fail).

  \<open>scanResult\<close> is what becomes of the promise once everything fired has run: it is
  rejected if the local scan threw, fulfilled with the scanned document if
  \<^verbatim>\<open>whenReady(resolvedUrl)\<close> returns, and never settled if \<^verbatim>\<open>whenReady\<close> waits on a Deferred
  that is never completed.
\<close>

fun scanLaunch ::
    "nat \<Rightarrow> externals \<Rightarrow> analyzer_context \<Rightarrow> url \<Rightarrow> contents_arg \<Rightarrow> cache_state \<Rightarrow>
       (scan_job \<times> cache_state) option"
  and scanImports ::
    "nat \<Rightarrow> externals \<Rightarrow> analyzer_context \<Rightarrow> nat \<Rightarrow> feature list \<Rightarrow> cache_state \<Rightarrow> cache_state option"
where
  "scanLaunch 0 ext ctx resolvedUrl contents c = None"
| "scanLaunch (Suc n) ext ctx resolvedUrl contents c =
     (case dependenciesScannedPromises c resolvedUrl of
        Some j \<Rightarrow> Some (j, c)
      | None \<Rightarrow>
          (case scanLocal n ext ctx resolvedUrl contents (setScanJob resolvedUrl Scanning c) of
             None \<Rightarrow> None
           | Some (Pending, c1) \<Rightarrow> Some (Scanning, c1)
           | Some (Rejected e, c1) \<Rightarrow> Some (ScanFailed e, setScanJob resolvedUrl (ScanFailed e) c1)
           | Some (Fulfilled r, c1) \<Rightarrow>
               (case scanImports n ext ctx r (eagerImports ext c1 r)
                       (setScanJob resolvedUrl (AwaitingReady r) c1) of
                  None \<Rightarrow> None
                | Some c2 \<Rightarrow> Some (AwaitingReady r, c2))))"
| "scanImports n ext ctx r [] c = Some c"
| "scanImports n ext ctx r (scannedImport # rest) c =
     (case scanLaunch n ext ctx (resolveUrl ctx (importUrl scannedImport)) Undefined c of
        None \<Rightarrow> None
      | Some (ScanFailed error, c1) \<Rightarrow>
          scanImports n ext ctx r rest (pushWarning r (couldNotLoad error scannedImport) c1)
      | Some (j, c1) \<Rightarrow> scanImports n ext ctx r rest c1)"

definition scanResult :: "nat \<Rightarrow> url \<Rightarrow> cache_state \<Rightarrow> (nat promise \<times> cache_state) option" where
  "scanResult n resolvedUrl c =
     (case dependenciesScannedPromises c resolvedUrl of
        None \<Rightarrow> Some (Pending, c)
      | Some Scanning \<Rightarrow> Some (Pending, c)
      | Some (ScanFailed e) \<Rightarrow> Some (Rejected e, c)
      | Some (AwaitingReady r) \<Rightarrow>
          (case whenReady n resolvedUrl (dependencyGraph c) of
             None \<Rightarrow> None
           | Some (Returned visited visits, g) \<Rightarrow> Some (Fulfilled r, c\<lparr> dependencyGraph := g \<rparr>)
           | Some (Blocked k, g) \<Rightarrow> Some (Pending, c\<lparr> dependencyGraph := g \<rparr>)))"

definition scan ::
    "nat \<Rightarrow> externals \<Rightarrow> analyzer_context \<Rightarrow> url \<Rightarrow> contents_arg \<Rightarrow> cache_state \<Rightarrow>
       (nat promise \<times> cache_state) option" where
  "scan n ext ctx resolvedUrl contents c =
     (case scanLaunch n ext ctx resolvedUrl contents c of
        None \<Rightarrow> None
      | Some (j, c1) \<Rightarrow> scanResult n resolvedUrl c1)"

text \<open>
  \<^verbatim>\<open>_getDocument(url)\<close>; \<^verbatim>\<open>document.resolve()\<close> belongs to the Document class and is not
  followed. The result \<open>None\<close> is \<^verbatim>\<open>undefined\<close>.
\<close>

definition getDocument :: "analyzer_context \<Rightarrow> url \<Rightarrow> cache_state \<Rightarrow> document option \<times> cache_state" where
  "getDocument ctx u c =
     (let resolvedUrl = resolveUrl ctx u
      in (case analyzedDocuments c resolvedUrl of
            Some cachedResult \<Rightarrow> (Some cachedResult, c)
          | None \<Rightarrow>
              (case scannedDocuments c resolvedUrl of
                 None \<Rightarrow> (None, c)
               | Some r \<Rightarrow>
                   (let c1 = c\<lparr> analyzedDocuments := (analyzedDocuments c)(resolvedUrl \<mapsto> Document r) \<rparr>;
                        c2 = (case analyzedDocumentPromises c1 resolvedUrl of
                                Some p \<Rightarrow> c1
                              | None \<Rightarrow>
                                  c1\<lparr> analyzedDocumentPromises :=
                                        (analyzedDocumentPromises c1)
                                          (resolvedUrl \<mapsto> Fulfilled (Some (Document r))) \<rparr>)
                    in (Some (Document r), c2)))))"

definition settleAnalyzed ::
    "url \<Rightarrow> document option promise \<Rightarrow> cache_state \<Rightarrow> document option promise \<times> cache_state" where
  "settleAnalyzed resolvedUrl p c =
     (p, c\<lparr> analyzedDocumentPromises := (analyzedDocumentPromises c)(resolvedUrl \<mapsto> p) \<rparr>)"

definition scannedUrl :: "cache_state \<Rightarrow> nat \<Rightarrow> url" where
  "scannedUrl c r = (case objects c r of None \<Rightarrow> [] | Some d \<Rightarrow> doc_url (document d))"

text \<open>
  \<^verbatim>\<open>analyze(url, contents)\<close>: memoized in \<^verbatim>\<open>analyzedDocumentPromises\<close> under the resolved URL;
  the entry is there, pending, while the computation runs.
\<close>

definition analyze ::
    "nat \<Rightarrow> externals \<Rightarrow> analyzer_context \<Rightarrow> url \<Rightarrow> contents_arg \<Rightarrow> cache_state \<Rightarrow>
       (document option promise \<times> cache_state) option" where
  "analyze n ext ctx u contents c =
     (let resolvedUrl = resolveUrl ctx u
      in (case analyzedDocumentPromises c resolvedUrl of
            Some p \<Rightarrow> Some (p, c)
          | None \<Rightarrow>
              (case scan n ext ctx resolvedUrl contents
                      (c\<lparr> analyzedDocumentPromises :=
                            (analyzedDocumentPromises c)(resolvedUrl \<mapsto> Pending) \<rparr>) of
                 None \<Rightarrow> None
               | Some (Pending, c1) \<Rightarrow> Some (Pending, c1)
               | Some (Rejected e, c1) \<Rightarrow> Some (settleAnalyzed resolvedUrl (Rejected e) c1)
               | Some (Fulfilled r, c1) \<Rightarrow>
                   (case getDocument ctx (scannedUrl c1 r) c1 of
                      (d, c2) \<Rightarrow> Some (settleAnalyzed resolvedUrl (Fulfilled d) c2)))))"

text \<open>
  The part of the cache the local scans write, and how its pieces hang together in every
  cache the pipeline builds: successors are recorded only for a URL whose local scan
  succeeded, and a scan is marked failed only for a URL whose local scan was rejected.
\<close>

definition localScans :: "cache_state \<Rightarrow> (url \<rightharpoonup> nat promise) \<times> (url \<rightharpoonup> scan_job) \<times> url promise_all" where
  "localScans c = (scannedDocumentPromises c, dependenciesScannedPromises c, dependencyGraph c)"

definition consistent :: "cache_state \<Rightarrow> bool" where
  "consistent c \<longleftrightarrow>
     (\<forall>k ds. successors (dependencyGraph c) k = Some ds \<longrightarrow>
        (\<exists>r. scannedDocumentPromises c k = Some (Fulfilled r))) \<and>
     (\<forall>k e. dependenciesScannedPromises c k = Some (ScanFailed e) \<longrightarrow>
        scannedDocumentPromises c k = Some (Rejected e))"


section \<open>Package-level analysis\<close>















section \<open>Contexts and forks\<close>

definition getDefaultScanners :: "lazy_edge_map option \<Rightarrow> (string \<rightharpoonup> scanner list)" where
  "getDefaultScanners lazy =
     [''html'' \<mapsto> [HtmlImportScanner lazy, HtmlScriptScanner, HtmlStyleScanner, DomModuleScanner,
                    CssImportScanner, HtmlCustomElementReferenceScanner, PseudoElementScanner],
      ''js'' \<mapsto> [PolymerElementScanner, BehaviorScanner, VanillaElementScanner]]"

text \<open>
  \<^verbatim>\<open>new AnalyzerCacheContext(options)\<close>: the field initialisers allocate an AnalysisCache and
  a TelemetryTracker of the new object's own and set the generation to 0, then the
  constructor takes the loader, resolver, parsers, lazy edges and scanners from the options
  (\<^verbatim>\<open>options.parsers || this._parsers\<close>, \<^verbatim>\<open>options.scanners || _getDefaultScanners(...)\<close>).
\<close>

definition new_AnalyzerCacheContext ::
    "externals \<Rightarrow> analyzer_options \<Rightarrow> heap \<Rightarrow> analyzer_context \<times> heap" where
  "new_AnalyzerCacheContext ext opts h =
     (let a = nextAddress h;
          h1 = h\<lparr> analysisCaches := (analysisCaches h)(a \<mapsto> new_AnalysisCache),
                  telemetryTrackers := (telemetryTrackers h)(Suc a \<mapsto> []),
                  nextAddress := a + 2 \<rparr>
      in (\<lparr> parsers = (case opt_parsers opts of Some p \<Rightarrow> p | None \<Rightarrow> defaultParsers ext),
            lazyEdges = opt_lazyEdges opts,
            scanners = (case opt_scanners opts of
                          Some s \<Rightarrow> s
                        | None \<Rightarrow> getDefaultScanners (opt_lazyEdges opts)),
            loader = opt_urlLoader opts,
            resolver = opt_urlResolver opts,
            cache = a,
            telemetryTracker = Suc a,
            generation = 0 \<rparr>, h1))"

text \<open>
  \<^verbatim>\<open>_fork(cache)\<close>:
  \<^verbatim>\<open>const copy = new AnalyzerCacheContext({lazyEdges: this._lazyEdges, parsers: this._parsers,
     scanners: this._scanners, urlLoader: this._loader, urlResolver: this._resolver});
  copy._telemetryTracker = this._telemetryTracker;
  copy._cache = cache;
  copy._generation = this._generation + 1;\<close>
\<close>

definition fork :: "externals \<Rightarrow> nat \<Rightarrow> analyzer_context \<Rightarrow> heap \<Rightarrow> analyzer_context \<times> heap" where
  "fork ext newCache ctx h =
     (case new_AnalyzerCacheContext ext
             \<lparr> opt_urlLoader = loader ctx, opt_urlResolver = resolver ctx,
               opt_parsers = Some (parsers ctx), opt_lazyEdges = lazyEdges ctx,
               opt_scanners = Some (scanners ctx) \<rparr> h of
        (copy, h1) \<Rightarrow>
          (copy\<lparr> telemetryTracker := telemetryTracker ctx, cache := newCache,
                 generation := generation ctx + 1 \<rparr>, h1))"

text \<open>\<^verbatim>\<open>new AnalysisCache()\<close> with the given contents, at the next free address.\<close>

definition allocAnalysisCache :: "cache_state \<Rightarrow> heap \<Rightarrow> nat \<times> heap" where
  "allocAnalysisCache content h =
     (nextAddress h,
      h\<lparr> analysisCaches := (analysisCaches h)(nextAddress h \<mapsto> content),
         nextAddress := Suc (nextAddress h) \<rparr>)"

text \<open>\<^verbatim>\<open>clearCaches() { return this._fork(new AnalysisCache()); }\<close>\<close>

definition clearCaches :: "externals \<Rightarrow> analyzer_context \<Rightarrow> heap \<Rightarrow> analyzer_context \<times> heap" where
  "clearCaches ext ctx h =
     (case allocAnalysisCache new_AnalysisCache h of (newCache, h1) \<Rightarrow> fork ext newCache ctx h1)"

text \<open>
  Modelled from the spec: \<^verbatim>\<open>AnalysisCache.invalidate\<close> is not among the sources. The spec:
  "invalidate(urls) constructs a new Analysis Cache" from the entries of the old one that
  are not invalidated, and "an Analysis Cache instance, once constructed, is never mutated
  to remove or replace an existing key". Which entries the new cache keeps is the
  parameter \<open>kept\<close>.
\<close>

definition cacheInvalidate ::
    "(cache_state \<Rightarrow> url list \<Rightarrow> cache_state) \<Rightarrow> nat \<Rightarrow> url list \<Rightarrow> heap \<Rightarrow> nat \<times> heap" where
  "cacheInvalidate kept a urls h =
     (case analysisCaches h a of
        None \<Rightarrow> allocAnalysisCache new_AnalysisCache h
      | Some content \<Rightarrow> allocAnalysisCache (kept content urls) h)"

text \<open>
  \<^verbatim>\<open>filesChanged(urls) {
    const newCache = this._cache.invalidate(urls.map(url => this._resolveUrl(url)));
    return this._fork(newCache); }\<close>
\<close>

definition filesChanged ::
    "externals \<Rightarrow> (cache_state \<Rightarrow> url list \<Rightarrow> cache_state) \<Rightarrow> url list \<Rightarrow> analyzer_context \<Rightarrow> heap \<Rightarrow>
       analyzer_context \<times> heap" where
  "filesChanged ext kept urls ctx h =
     (case cacheInvalidate kept (cache ctx) (map (resolveUrl ctx) urls) h of
        (newCache, h1) \<Rightarrow> fork ext newCache ctx h1)"

text \<open>
  A heap is well formed for a context when the objects the context holds are allocated
  and nothing lies at or beyond the next free address.
\<close>

definition wellFormed :: "analyzer_context \<Rightarrow> heap \<Rightarrow> bool" where
  "wellFormed ctx h \<longleftrightarrow>
     cache ctx < nextAddress h \<and> telemetryTracker ctx < nextAddress h \<and>
     analysisCaches h (cache ctx) \<noteq> None \<and>
     (\<forall>a. nextAddress h \<le> a \<longrightarrow> analysisCaches h a = None \<and> telemetryTrackers h a = None)"

text \<open>
  What a fork of \<open>ctx\<close> in heap \<open>h\<close> into \<open>ctx'\<close> in heap \<open>h'\<close> has to be: the new context
  holds an AnalysisCache object that did not exist before; every object that existed
  before, the old context's cache among them, is as it was; the pipeline configuration and
  the telemetry tracker are the old context's; the generation is one more.
\<close>

definition forked :: "analyzer_context \<Rightarrow> heap \<Rightarrow> analyzer_context \<Rightarrow> heap \<Rightarrow> bool" where
  "forked ctx h ctx' h' \<longleftrightarrow>
     cache ctx' \<noteq> cache ctx \<and> analysisCaches h (cache ctx') = None \<and>
     analysisCaches h' (cache ctx') \<noteq> None \<and>
     analysisCaches h' (cache ctx) = analysisCaches h (cache ctx) \<and>
     (\<forall>a. a < nextAddress h \<longrightarrow>
        analysisCaches h' a = analysisCaches h a \<and> telemetryTrackers h' a = telemetryTrackers h a) \<and>
     parsers ctx' = parsers ctx \<and> scanners ctx' = scanners ctx \<and> loader ctx' = loader ctx \<and>
     resolver ctx' = resolver ctx \<and> lazyEdges ctx' = lazyEdges ctx \<and>
     telemetryTracker ctx' = telemetryTracker ctx \<and>
     generation ctx' = generation ctx + 1 \<and>
     wellFormed ctx' h'"

section \<open>A small project\<close>

text \<open>
  Collaborators for concrete runs. The loader serves every url but \<^verbatim>\<open>missing.html\<close>; the one
  parser is for \<^verbatim>\<open>html\<close> and throws a WarningCarryingException on \<^verbatim>\<open>w.html\<close>; the scanners find
  in \<^verbatim>\<open>a.html\<close> eager imports of \<^verbatim>\<open>missing.html\<close> and \<^verbatim>\<open>leaf.html\<close> and a lazy import of
  \<^verbatim>\<open>lazy.html\<close>, in \<^verbatim>\<open>c.html\<close> an eager import of \<^verbatim>\<open>x.foo\<close>, and in \<^verbatim>\<open>d.html\<close> and \<^verbatim>\<open>e.html\<close>
  eager imports of each other.
\<close>

definition ex_range :: "url \<Rightarrow> source_range" where
  "ex_range u = \<lparr> range_file = u, range_start = \<lparr> line = 1, column = 0 \<rparr>,
                  range_end = \<lparr> line = 1, column = 30 \<rparr> \<rparr>"

definition ex_warning :: warning where
  "ex_warning = \<lparr> sourceRange = ex_range ''w.html'', code = ''parse-error'',
                   message = ''Unexpected token'', severity = ERROR \<rparr>"

definition ex_parser :: parser where
  "ex_parser contents u inlineInfo =
     (if u = ''w.html'' then Inl (WarningCarryingException ex_warning)
      else Inr \<lparr> doc_url = u, doc_type = ''html'', doc_isInline = (inlineInfo \<noteq> None),
                 doc_contents = contents \<rparr>)"

definition ex_loader :: url_loader where
  "ex_loader =
     \<lparr> canLoad = (\<lambda>u. u \<noteq> ''missing.html''),
       loader_load = (\<lambda>u. Inr (''contents of '' @ u)),
       readDirectory = Some (\<lambda>p recursive.
          Inr [''leaf.html'', ''w.html'', ''bower_components/x.html'', ''notes.txt'']) \<rparr>"

definition ex_features :: "url \<Rightarrow> feature list" where
  "ex_features u =
     (if u = ''a.html'' then
        [ScannedImport ''html-import'' ''missing.html'' (ex_range ''a.html'') None,
         ScannedImport ''html-import'' ''leaf.html'' (ex_range ''a.html'') None,
         ScannedImport ''lazy-html-import'' ''lazy.html'' (ex_range ''a.html'') None]
      else if u = ''c.html'' then [ScannedImport ''html-import'' ''x.foo'' (ex_range ''c.html'') None]
      else if u = ''d.html'' then [ScannedImport ''html-import'' ''e.html'' (ex_range ''d.html'') None]
      else if u = ''e.html'' then [ScannedImport ''html-import'' ''d.html'' (ex_range ''e.html'') None]
      else [])"

definition ex_ext :: externals where
  "ex_ext =
     \<lparr> path_extname = (\<lambda>p. dropWhile (\<lambda>ch. ch \<noteq> CHR ''.'') p),
       path_dirname = (\<lambda>p. if CHR ''/'' \<in> set p then takeWhile (\<lambda>ch. ch \<noteq> CHR ''/'') p else ''.''),
       runScanners = (\<lambda>parsedDoc ss. Inr (ex_features (doc_url parsedDoc))),
       applyHtmlComment = (\<lambda>comment f. f),
       getNestedFeatures = (\<lambda>objs d. features d),
       defaultParsers = [''html'' \<mapsto> ex_parser] \<rparr>"

definition ex_ctx :: analyzer_context where
  "ex_ctx =
     \<lparr> parsers = [''html'' \<mapsto> ex_parser], lazyEdges = None,
       scanners = getDefaultScanners None, loader = ex_loader, resolver = None,
       cache = 0, telemetryTracker = 1, generation = 0 \<rparr>"



definition ex_heap :: heap where
  "ex_heap = \<lparr> analysisCaches = [0 \<mapsto> new_AnalysisCache], telemetryTrackers = [1 \<mapsto> []],
               nextAddress = 2 \<rparr>"

section \<open>The cyclic transitive join: proofs\<close>


lemma getDeferredFor_recorded:
  "successors s k = Some ds \<Longrightarrow> getDeferredFor k s = (Deferred (Some ds), s)"
  by (cases "deferreds s k"; cases "the (deferreds s k)")
     (auto simp: successors_def getDeferredFor_def map_upd_triv Let_def)

lemma getDeferredFor_unrecorded:
  "successors s k = None \<Longrightarrow> completion (fst (getDeferredFor k s)) = None"
  by (auto simp: successors_def getDeferredFor_def new_Deferred_def Let_def split: option.splits)

lemma transitiveAwait_Suc_recorded:
  "key \<notin> visited \<Longrightarrow> successors s key = Some ds \<Longrightarrow>
   transitiveAwait (Suc n) key visited visits s = awaitDeps n ds (insert key visited) (visits @ [key]) s"
  by (simp add: getDeferredFor_recorded)

lemma transitiveAwait_Suc_unrecorded:
  "key \<notin> visited \<Longrightarrow> successors s key = None \<Longrightarrow>
   \<exists>s'. transitiveAwait (Suc n) key visited visits s = Some (Blocked key, s')"
  using getDeferredFor_unrecorded[of s key]
  by (cases "getDeferredFor key s") auto

subsection \<open>More fuel does not change a result\<close>

lemma awaitDeps_mono_aux:
  assumes "\<And>key V L (s::'k promise_all) r.
             transitiveAwait n key V L s = Some r \<Longrightarrow> transitiveAwait m key V L s = Some r"
  shows "awaitDeps n ds V L (s::'k promise_all) = Some r \<Longrightarrow> awaitDeps m ds V L s = Some r"
proof (induction ds arbitrary: V L s)
  case Nil
  then show ?case by simp
next
  case (Cons d ds)
  from Cons.prems obtain r1 where r1: "transitiveAwait n d V L s = Some r1"
    by (cases "transitiveAwait n d V L s") auto
  then have m1: "transitiveAwait m d V L s = Some r1" by (rule assms)
  show ?case
  proof (cases r1)
    case (Pair t s1)
    show ?thesis
    proof (cases t)
      case (Returned V1 L1)
      with Cons.prems r1 Pair have "awaitDeps n ds V1 L1 s1 = Some r" by simp
      then have "awaitDeps m ds V1 L1 s1 = Some r" by (rule Cons.IH)
      with m1 Pair Returned show ?thesis by simp
    next
      case (Blocked k)
      with Cons.prems r1 m1 Pair show ?thesis by auto
    qed
  qed
qed

lemma transitiveAwait_mono:
  "transitiveAwait n key V L s = Some r \<Longrightarrow> n \<le> m \<Longrightarrow> transitiveAwait m key V L s = Some r"
proof (induction n arbitrary: m key V L s r)
  case 0
  then show ?case by simp
next
  case (Suc n)
  from Suc.prems obtain m' where m: "m = Suc m'" and le: "n \<le> m'"
    by (cases m) auto
  have step: "awaitDeps n ds V L s = Some r \<Longrightarrow> awaitDeps m' ds V L s = Some r"
    for ds V L and s :: "'a promise_all" and r
    by (rule awaitDeps_mono_aux[where n = n and m = m']) (rule Suc.IH[OF _ le])
  show ?case
  proof (cases "key \<in> V")
    case True
    with Suc.prems m show ?thesis by simp
  next
    case False
    show ?thesis
    proof (cases "getDeferredFor key s")
      case (Pair d s1)
      show ?thesis
      proof (cases "completion d")
        case None
        with Suc.prems m False Pair show ?thesis by simp
      next
        case (Some ds)
        with Suc.prems False Pair
        have "awaitDeps n ds (insert key V) (L @ [key]) s1 = Some r" by simp
        then have "awaitDeps m' ds (insert key V) (L @ [key]) s1 = Some r" by (rule step)
        with m False Pair Some show ?thesis by simp
      qed
    qed
  qed
qed

lemma awaitDeps_mono:
  "awaitDeps n ds V L s = Some r \<Longrightarrow> n \<le> m \<Longrightarrow> awaitDeps m ds V L s = Some r"
  by (rule awaitDeps_mono_aux[where n = n and m = m]) (rule transitiveAwait_mono)


subsection \<open>What a returned traversal has done\<close>

lemma extends_refl: "extends s V L V L R"
  by (simp add: extends_def)

lemma extends_trans:
  assumes "extends s V L V1 L1 R1" and "extends s V1 L1 V2 L2 R2"
  shows "extends s V L V2 L2 (R1 \<union> R2)"
proof -
  from assms(1) obtain N1 where N1: "L1 = L @ N1" "distinct N1" "set N1 = V1 - V" and s1: "V \<subseteq> V1"
    and c1: "\<forall>k\<in>V1 - V. \<exists>ds. successors s k = Some ds \<and> set ds \<subseteq> V1" and r1: "V1 - V \<subseteq> R1"
    unfolding extends_def by blast
  from assms(2) obtain N2 where N2: "L2 = L1 @ N2" "distinct N2" "set N2 = V2 - V1" and s2: "V1 \<subseteq> V2"
    and c2: "\<forall>k\<in>V2 - V1. \<exists>ds. successors s k = Some ds \<and> set ds \<subseteq> V2" and r2: "V2 - V1 \<subseteq> R2"
    unfolding extends_def by blast
  have "L2 = L @ (N1 @ N2)" using N1 N2 by simp
  moreover have "distinct (N1 @ N2)" using N1 N2 by auto
  moreover have "set (N1 @ N2) = V2 - V" using N1 N2 s1 s2 by auto
  moreover have "\<forall>k\<in>V2 - V. \<exists>ds. successors s k = Some ds \<and> set ds \<subseteq> V2"
  proof
    fix k assume k: "k \<in> V2 - V"
    show "\<exists>ds. successors s k = Some ds \<and> set ds \<subseteq> V2"
    proof (cases "k \<in> V1")
      case True
      with k c1 obtain ds where "successors s k = Some ds" "set ds \<subseteq> V1" by blast
      with s2 show ?thesis by blast
    next
      case False
      with k c2 show ?thesis by blast
    qed
  qed
  moreover have "V2 - V \<subseteq> R1 \<union> R2" using r1 r2 by blast
  moreover have "V \<subseteq> V2" using s1 s2 by blast
  ultimately show ?thesis unfolding extends_def by blast
qed

lemma extends_mono: "extends s V L V' L' R \<Longrightarrow> R \<subseteq> R' \<Longrightarrow> extends s V L V' L' R'"
  unfolding extends_def by blast

lemma reachable_refl: "key \<in> reachable s key"
  by (simp add: reachable_def)

lemma reachable_step:
  "successors s key = Some ds \<Longrightarrow> d \<in> set ds \<Longrightarrow> reachable s d \<subseteq> reachable s key"
proof -
  assume a: "successors s key = Some ds" "d \<in> set ds"
  then have "(key, d) \<in> edges s" by (auto simp: edges_def)
  then show ?thesis
    by (auto simp: reachable_def intro: converse_rtrancl_into_rtrancl)
qed

lemma extends_enter:
  assumes "key \<notin> V" and "successors s key = Some ds" and "set ds \<subseteq> V'"
    and "extends s (insert key V) (L @ [key]) V' L' R" and "R \<subseteq> reachable s key"
  shows "extends s V L V' L' (reachable s key)"
proof -
  from assms(4) obtain N where N: "L' = (L @ [key]) @ N" "distinct N" "set N = V' - insert key V"
    and sub: "insert key V \<subseteq> V'"
    and cl: "\<forall>k\<in>V' - insert key V. \<exists>ds. successors s k = Some ds \<and> set ds \<subseteq> V'"
    and r: "V' - insert key V \<subseteq> R"
    unfolding extends_def by blast
  have "L' = L @ (key # N)" using N by simp
  moreover have "distinct (key # N)" using N by auto
  moreover have "set (key # N) = V' - V" using N sub assms(1) by auto
  moreover have "\<forall>k\<in>V' - V. \<exists>ds. successors s k = Some ds \<and> set ds \<subseteq> V'"
    using cl assms(2,3) by blast
  moreover have "V' - V \<subseteq> reachable s key"
    using r assms(5) reachable_refl[of key s] by blast
  moreover have "V \<subseteq> V'" using sub by blast
  ultimately show ?thesis unfolding extends_def by blast
qed

lemma awaitDeps_sound_aux:
  assumes "\<And>key V L (s::'k promise_all) V' L' s'.
             transitiveAwait n key V L s = Some (Returned V' L', s') \<Longrightarrow>
             s' = s \<and> key \<in> V' \<and> extends s V L V' L' (reachable s key)"
  shows "awaitDeps n ds V L (s::'k promise_all) = Some (Returned V' L', s') \<Longrightarrow>
         s' = s \<and> set ds \<subseteq> V' \<and> extends s V L V' L' (\<Union>d\<in>set ds. reachable s d)"
proof (induction ds arbitrary: V L s)
  case Nil
  then show ?case by (simp add: extends_refl)
next
  case (Cons d ds)
  from Cons.prems obtain V1 L1 s1 where
    r1: "transitiveAwait n d V L s = Some (Returned V1 L1, s1)"
    and rest: "awaitDeps n ds V1 L1 s1 = Some (Returned V' L', s')"
    by (auto split: option.splits traversal.splits)
  from assms[OF r1] have a: "s1 = s" "d \<in> V1" "extends s V L V1 L1 (reachable s d)" by auto
  from Cons.IH[OF rest] a(1)
  have b: "s' = s" "set ds \<subseteq> V'" "extends s V1 L1 V' L' (\<Union>d\<in>set ds. reachable s d)" by auto
  from b(3) have "V1 \<subseteq> V'" by (simp add: extends_def)
  with a(2) b(2) have "set (d # ds) \<subseteq> V'" by auto
  moreover have "extends s V L V' L' (\<Union>d\<in>set (d # ds). reachable s d)"
    using extends_trans[OF a(3) b(3)] by (rule extends_mono) auto
  ultimately show ?case using b(1) by blast
qed

lemma transitiveAwait_sound:
  "transitiveAwait n key V L s = Some (Returned V' L', s') \<Longrightarrow>
   s' = s \<and> key \<in> V' \<and> extends s V L V' L' (reachable s key)"
proof (induction n arbitrary: key V L s V' L' s')
  case 0
  then show ?case by simp
next
  case (Suc n)
  show ?case
  proof (cases "key \<in> V")
    case True
    with Suc.prems show ?thesis by (auto simp: extends_refl)
  next
    case False
    show ?thesis
    proof (cases "successors s key")
      case None
      with False Suc.prems transitiveAwait_Suc_unrecorded[of key V s n L] show ?thesis by auto
    next
      case (Some ds)
      have run: "awaitDeps n ds (insert key V) (L @ [key]) s = Some (Returned V' L', s')"
        using Suc.prems by (simp only: transitiveAwait_Suc_recorded[OF False Some])
      have loop: "s' = s \<and> set ds \<subseteq> V' \<and>
          extends s (insert key V) (L @ [key]) V' L' (\<Union>d\<in>set ds. reachable s d)"
        by (rule awaitDeps_sound_aux[OF _ run]) (rule Suc.IH)
      then have sub: "insert key V \<subseteq> V'" by (simp add: extends_def)
      have "(\<Union>d\<in>set ds. reachable s d) \<subseteq> reachable s key"
        using reachable_step[OF Some] by blast
      with loop False Some have "extends s V L V' L' (reachable s key)"
        by (intro extends_enter[where ds = ds and R = "\<Union>d\<in>set ds. reachable s d"]) auto
      with loop sub show ?thesis by blast
    qed
  qed
qed

lemma awaitDeps_sound:
  "awaitDeps n ds V L s = Some (Returned V' L', s') \<Longrightarrow>
   s' = s \<and> set ds \<subseteq> V' \<and> extends s V L V' L' (\<Union>d\<in>set ds. reachable s d)"
  by (rule awaitDeps_sound_aux[where n = n]) (rule transitiveAwait_sound)



lemma recorded_in_dom: "successors s k = Some ds \<Longrightarrow> k \<in> dom (deferreds s)"
  by (auto simp: successors_def split: option.splits)

lemma transitiveAwait_returns:
  assumes fin: "finite (dom (deferreds s))"
  shows "\<forall>k\<in>reachable s key. successors s k \<noteq> None \<Longrightarrow>
         \<exists>n V' L'. transitiveAwait n key V L s = Some (Returned V' L', s)"
proof (induction "card (dom (deferreds s) - V)" arbitrary: key V L rule: less_induct)
  case less
  show ?case
  proof (cases "key \<in> V")
    case True
    then have "transitiveAwait (Suc 0) key V L s = Some (Returned V L, s)" by simp
    then show ?thesis by blast
  next
    case False
    from less.prems reachable_refl[of key s] obtain ds where ds: "successors s key = Some ds"
      by blast
    have key_dom: "key \<in> dom (deferreds s) - V"
      using recorded_in_dom[OF ds] False by simp
    have loop: "\<forall>d\<in>set ds'. \<forall>k\<in>reachable s d. successors s k \<noteq> None \<Longrightarrow> insert key V \<subseteq> W \<Longrightarrow>
        \<exists>n V' L'. awaitDeps n ds' W M s = Some (Returned V' L', s)" for ds' W M
    proof (induction ds' arbitrary: W M)
      case Nil
      have "awaitDeps 0 [] W M s = Some (Returned W M, s)" by simp
      then show ?case by blast
    next
      case (Cons d ds')
      have "dom (deferreds s) - W \<subset> dom (deferreds s) - V"
        using Cons.prems(2) key_dom by blast
      then have "card (dom (deferreds s) - W) < card (dom (deferreds s) - V)"
        using fin by (intro psubset_card_mono) auto
      moreover have "\<forall>k\<in>reachable s d. successors s k \<noteq> None" using Cons.prems(1) by simp
      ultimately obtain n1 V1 L1 where
        r1: "transitiveAwait n1 d W M s = Some (Returned V1 L1, s)"
        using less.hyps[of W d M] by blast
      from transitiveAwait_sound[OF r1] have "W \<subseteq> V1" by (simp add: extends_def)
      with Cons.prems(2) have "insert key V \<subseteq> V1" by blast
      moreover have "\<forall>d\<in>set ds'. \<forall>k\<in>reachable s d. successors s k \<noteq> None"
        using Cons.prems(1) by simp
      ultimately obtain n2 V2 L2 where
        r2: "awaitDeps n2 ds' V1 L1 s = Some (Returned V2 L2, s)"
        using Cons.IH[of V1 L1] by blast
      have "transitiveAwait (max n1 n2) d W M s = Some (Returned V1 L1, s)"
        using transitiveAwait_mono[OF r1] by simp
      moreover have "awaitDeps (max n1 n2) ds' V1 L1 s = Some (Returned V2 L2, s)"
        using awaitDeps_mono[OF r2] by simp
      ultimately have "awaitDeps (max n1 n2) (d # ds') W M s = Some (Returned V2 L2, s)"
        by simp
      then show ?case by blast
    qed
    have "\<forall>d\<in>set ds. \<forall>k\<in>reachable s d. successors s k \<noteq> None"
      using less.prems reachable_step[OF ds] by blast
    then obtain n V' L' where
      "awaitDeps n ds (insert key V) (L @ [key]) s = Some (Returned V' L', s)"
      using loop[of ds "insert key V" "L @ [key]"] by blast
    then have "transitiveAwait (Suc n) key V L s = Some (Returned V' L', s)"
      by (simp only: transitiveAwait_Suc_recorded[OF False ds])
    then show ?thesis by blast
  qed
qed

lemma closed_reachable:
  assumes "key \<in> W" and "\<forall>k\<in>W. \<exists>ds. successors s k = Some ds \<and> set ds \<subseteq> W"
  shows "reachable s key \<subseteq> W"
proof
  fix k assume "k \<in> reachable s key"
  then have "(key, k) \<in> (edges s)\<^sup>*" by (simp add: reachable_def)
  then show "k \<in> W"
  proof (induction rule: rtrancl_induct)
    case base
    show ?case by (rule assms(1))
  next
    case (step y z)
    from step.hyps(2) obtain ds where "successors s y = Some ds" "z \<in> set ds"
      by (auto simp: edges_def)
    with step.IH assms(2) show ?case by fastforce
  qed
qed

lemma promiseAllTransitive_sound:
  assumes "promiseAllTransitive n key s = Some (Returned V' L', s')"
  shows "s' = s \<and> V' = reachable s key \<and> distinct L' \<and> set L' = reachable s key \<and>
         (\<forall>k\<in>reachable s key. successors s k \<noteq> None)"
proof -
  from assms have run: "transitiveAwait n key {} [] s = Some (Returned V' L', s')"
    by (simp add: promiseAllTransitive_def)
  from transitiveAwait_sound[OF run]
  have s: "s' = s" and key: "key \<in> V'" and ext: "extends s {} [] V' L' (reachable s key)" by auto
  from ext have L: "distinct L'" "set L' = V'"
    and cl: "\<forall>k\<in>V'. \<exists>ds. successors s k = Some ds \<and> set ds \<subseteq> V'"
    and sub: "V' \<subseteq> reachable s key"
    by (auto simp: extends_def)
  from closed_reachable[OF key cl] sub have eq: "V' = reachable s key" by blast
  moreover have "\<forall>k\<in>reachable s key. successors s k \<noteq> None"
    using cl eq by fastforce
  ultimately show ?thesis using s L by simp
qed

text \<open>
  Claim C1. Whatever successor relation has been recorded, cyclic or not, once every key
  reachable from \<open>key\<close> has its successors recorded, \<open>promiseAllTransitive key\<close> returns: with
  enough fuel the traversal ends in \<open>Returned\<close>, not \<open>Blocked\<close>, and leaves the instance as it
  was. Each top-level call starts from the empty visited set; the keys it has visited are
  exactly the reachable ones, and each was entered exactly once (the log of
  \<^verbatim>\<open>visited.add\<close> has no repetition). An instance holds finitely many Deferreds, as every
  instance built by \<open>resolve\<close> and \<open>getDeferredFor\<close> does (\<open>finite_dom_new\<close>,
  \<open>finite_dom_resolve\<close>, \<open>finite_dom_getDeferredFor\<close>).
\<close>

theorem promiseAllTransitive_terminates:
  assumes "finite (dom (deferreds s))"
    and "\<forall>k\<in>reachable s key. successors s k \<noteq> None"
  shows "\<exists>n visits. promiseAllTransitive n key s = Some (Returned (reachable s key) visits, s) \<and>
           distinct visits \<and> set visits = reachable s key"
proof -
  from transitiveAwait_returns[OF assms(1) assms(2), of "{}" "[]"]
  obtain n V' L' where run: "promiseAllTransitive n key s = Some (Returned V' L', s)"
    by (auto simp: promiseAllTransitive_def)
  from promiseAllTransitive_sound[OF run] run show ?thesis by blast
qed



lemma resolve_recorded:
  "resolve key deps s = Inr s' \<Longrightarrow> successors s' key = Some deps"
  by (auto simp: resolve_def getDeferredFor_def deferred_resolve_def successors_def Let_def
           split: option.splits sum.splits)

lemma resolve_new:
  "successors s key = None \<Longrightarrow>
   resolve key deps s = Inr (s\<lparr> deferreds := (deferreds s)(key \<mapsto> Deferred (Some deps)) \<rparr>)"
  by (auto simp: resolve_def getDeferredFor_def deferred_resolve_def successors_def Let_def
        new_Deferred_def split: option.splits)

lemma resolve_again:
  "successors s key = Some ds \<Longrightarrow> resolve key deps s = Inl (Error ''Already resolved'')"
  by (auto simp: resolve_def getDeferredFor_def deferred_resolve_def successors_def Let_def
           split: option.splits)

lemma resolve_keeps:
  "successors s key = Some ds \<Longrightarrow> resolve k deps s = Inr s' \<Longrightarrow> successors s' key = Some ds"
  by (cases "k = key")
     (auto simp: resolve_def getDeferredFor_def deferred_resolve_def successors_def Let_def
           split: option.splits sum.splits)

lemma recordAll_keeps:
  "successors s key = Some ds \<Longrightarrow> recordAll rs s = Inr s' \<Longrightarrow> successors s' key = Some ds"
proof (induction rs arbitrary: s)
  case Nil
  then show ?case by simp
next
  case (Cons r rs)
  obtain k deps where r: "r = (k, deps)" by (cases r)
  from Cons.prems(2) r obtain s1 where s1: "resolve k deps s = Inr s1" and rest: "recordAll rs s1 = Inr s'"
    by (auto split: sum.splits)
  from resolve_keeps[OF Cons.prems(1) s1] have "successors s1 key = Some ds" .
  from Cons.IH[OF this rest] show ?case .
qed

text \<open>
  Claim C5. Once \<open>resolve key deps\<close> has succeeded on an instance, a later \<open>resolve\<close> for the
  same key fails, whatever successor lists were recorded for other keys in between: the
  Deferred of the key is complete and the check in its \<open>resolve\<close> refuses a second
  completion.
\<close>

theorem resolve_twice_fails:
  assumes "resolve key deps s = Inr s1" and "recordAll rs s1 = Inr s2"
  shows "\<exists>e. resolve key deps' s2 = Inl e"
  using resolve_again[OF recordAll_keeps[OF resolve_recorded[OF assms(1)] assms(2)]] by blast

lemma recordAll_cyclic_AB:
  "recordAll [(''A'', [''B'']), (''B'', [''A''])] new_AsyncCyclicTransitivePromiseAll = Inr cyclic_AB"
  by (simp add: resolve_def getDeferredFor_def deferred_resolve_def Let_def new_Deferred_def
        new_AsyncCyclicTransitivePromiseAll_def cyclic_AB_def fun_upd_twist)

text \<open>Witness for C5: A is recorded, then B, then A again.\<close>

theorem resolve_twice_fails_witness:
  "resolve ''A'' [''B''] new_AsyncCyclicTransitivePromiseAll
     = Inr \<lparr> deferreds = [''A'' \<mapsto> Deferred (Some [''B''])] \<rparr> \<and>
   recordAll [(''B'', [''A''])] \<lparr> deferreds = [''A'' \<mapsto> Deferred (Some [''B''])] \<rparr> = Inr cyclic_AB \<and>
   (\<exists>e. resolve ''A'' [''C''] cyclic_AB = Inl e)"
proof -
  have a: "resolve ''A'' [''B''] new_AsyncCyclicTransitivePromiseAll
     = Inr \<lparr> deferreds = [''A'' \<mapsto> Deferred (Some [''B''])] \<rparr>"
    by (simp add: resolve_def getDeferredFor_def deferred_resolve_def Let_def new_Deferred_def
        new_AsyncCyclicTransitivePromiseAll_def)
  have b: "recordAll [(''B'', [''A''])] \<lparr> deferreds = [''A'' \<mapsto> Deferred (Some [''B''])] \<rparr> = Inr cyclic_AB"
    by (simp add: resolve_def getDeferredFor_def deferred_resolve_def Let_def new_Deferred_def
        cyclic_AB_def)
  from resolve_twice_fails[OF a b, of "[''C'']"] a b show ?thesis by blast
qed

lemma successors_cyclic_AB:
  "successors cyclic_AB ''A'' = Some [''B'']" "successors cyclic_AB ''B'' = Some [''A'']"
  by (simp_all add: successors_def cyclic_AB_def)

lemma reachable_cyclic_AB: "reachable cyclic_AB ''A'' = {''A'', ''B''}"
proof
  show "reachable cyclic_AB ''A'' \<subseteq> {''A'', ''B''}"
    by (rule closed_reachable) (auto simp: successors_cyclic_AB)
  have "''B'' \<in> reachable cyclic_AB ''A''"
    using reachable_step[OF successors_cyclic_AB(1), of "''B''"] reachable_refl[of "''B''" cyclic_AB]
    by auto
  then show "{''A'', ''B''} \<subseteq> reachable cyclic_AB ''A''"
    using reachable_refl[of "''A''" cyclic_AB] by simp
qed

lemma finite_dom_cyclic_AB: "finite (dom (deferreds cyclic_AB))"
  by (simp add: cyclic_AB_def)

text \<open>
  Witness for C1: the cyclic relation A \<rightarrow> {B}, B \<rightarrow> {A}, as two calls of \<open>resolve\<close> record it
  (\<open>recordAll_cyclic_AB\<close>).
\<close>

theorem promiseAllTransitive_terminates_witness:
  "finite (dom (deferreds cyclic_AB)) \<and> reachable cyclic_AB ''A'' = {''A'', ''B''} \<and>
   successors cyclic_AB ''A'' = Some [''B''] \<and> successors cyclic_AB ''B'' = Some [''A''] \<and>
   (\<exists>n visits. promiseAllTransitive n ''A'' cyclic_AB = Some (Returned {''A'', ''B''} visits, cyclic_AB) \<and>
      distinct visits \<and> set visits = {''A'', ''B''})"
proof -
  have "\<forall>k\<in>reachable cyclic_AB ''A''. successors cyclic_AB k \<noteq> None"
    by (simp add: reachable_cyclic_AB successors_cyclic_AB)
  from promiseAllTransitive_terminates[OF finite_dom_cyclic_AB this]
  show ?thesis
    by (simp add: reachable_cyclic_AB successors_cyclic_AB finite_dom_cyclic_AB)
qed

lemma finite_dom_new: "finite (dom (deferreds new_AsyncCyclicTransitivePromiseAll))"
  by (simp add: new_AsyncCyclicTransitivePromiseAll_def)

lemma finite_dom_getDeferredFor:
  "finite (dom (deferreds s)) \<Longrightarrow> finite (dom (deferreds (snd (getDeferredFor key s))))"
  by (simp add: getDeferredFor_def Let_def)

lemma finite_dom_resolve:
  "finite (dom (deferreds s)) \<Longrightarrow> resolve key deps s = Inr s' \<Longrightarrow> finite (dom (deferreds s'))"
  by (auto simp: resolve_def getDeferredFor_def Let_def split: sum.splits)



section \<open>Loading\<close>

text \<open>
  Claim C10. \<open>load\<close> fails with "Can't load URL: ..." whenever the loader's \<open>canLoad\<close> is
  false, whatever contents are provided; when \<open>canLoad\<close> is true and contents are provided
  (neither null nor undefined), it returns them and makes no call of the loader's \<open>load\<close>.
\<close>

theorem load_contract:
  "(\<not> canLoad (loader ctx) u \<longrightarrow> load ctx u p = (Inl (Error (''Can't load URL: '' @ u)), [])) \<and>
   (canLoad (loader ctx) u \<longrightarrow> load ctx u (Contents s) = (Inr s, []))"
  by (simp add: load_def)

text \<open>Witness for C10: a url the loader refuses, and one it serves, each with contents provided.\<close>

theorem load_contract_witness:
  "\<not> canLoad (loader ex_ctx) ''missing.html'' \<and>
   load ex_ctx ''missing.html'' (Contents ''<p>'') = (Inl (Error ''Can't load URL: missing.html''), []) \<and>
   canLoad (loader ex_ctx) ''leaf.html'' \<and>
   load ex_ctx ''leaf.html'' (Contents ''<p>'') = (Inr ''<p>'', [])"
  using load_contract[of ex_ctx "''missing.html''" "Contents ''<p>''" "''<p>''"]
        load_contract[of ex_ctx "''leaf.html''" "Contents ''<p>''" "''<p>''"]
  by (simp add: ex_ctx_def ex_loader_def)

section \<open>The keyed memoization cache: proofs\<close>

lemma memo_inv_new: "memo_inv new_AsyncWorkCache"
  by (simp add: memo_inv_def new_AsyncWorkCache_def)

lemma getOrCompute_inv:
  assumes "memo_inv c" and "getOrCompute key compute c = (p, c')"
  shows "memo_inv c' \<and> keyToResultMap c' key = Some p \<and> keyToResultMap c \<subseteq>\<^sub>m keyToResultMap c' \<and>
         dom (keyToResultMap c') = insert key (dom (keyToResultMap c))"
proof (cases "keyToResultMap c key")
  case None
  with assms(2) have c': "c' = c\<lparr> keyToResultMap := (keyToResultMap c)(key \<mapsto> p),
                                   invocations := invocations c @ [key] \<rparr>"
    by (auto simp: getOrCompute_def Let_def)
  from None assms(1) have "key \<notin> set (invocations c)" by (auto simp: memo_inv_def)
  with assms(1) None show ?thesis
    unfolding c' by (auto simp: memo_inv_def map_le_def)
next
  case (Some q)
  with assms(2) have "c' = c" "p = q" by (auto simp: getOrCompute_def)
  with assms(1) Some show ?thesis by (auto simp: map_le_def)
qed

lemma requests_inv:
  "memo_inv c \<Longrightarrow> requests rs c = (ps, c') \<Longrightarrow>
   memo_inv c' \<and> keyToResultMap c \<subseteq>\<^sub>m keyToResultMap c' \<and>
   (\<forall>(k, p)\<in>set ps. keyToResultMap c' k = Some p) \<and> map fst ps = map fst rs \<and>
   dom (keyToResultMap c') = dom (keyToResultMap c) \<union> fst ` set rs"
proof (induction rs arbitrary: c ps c')
  case Nil
  then show ?case by simp
next
  case (Cons r rs)
  obtain key compute where r: "r = (key, compute)" by (cases r)
  obtain p c1 where g: "getOrCompute key compute c = (p, c1)" by (cases "getOrCompute key compute c")
  obtain qs c2 where q: "requests rs c1 = (qs, c2)" by (cases "requests rs c1")
  from Cons.prems(2) r g q have eq: "ps = (key, p) # qs" "c' = c2" by auto
  from getOrCompute_inv[OF Cons.prems(1) g]
  have a: "memo_inv c1" "keyToResultMap c1 key = Some p" "keyToResultMap c \<subseteq>\<^sub>m keyToResultMap c1"
    "dom (keyToResultMap c1) = insert key (dom (keyToResultMap c))" by auto
  from Cons.IH[OF a(1) q]
  have b: "memo_inv c2" "keyToResultMap c1 \<subseteq>\<^sub>m keyToResultMap c2"
    "\<forall>(k, p)\<in>set qs. keyToResultMap c2 k = Some p" "map fst qs = map fst rs"
    "dom (keyToResultMap c2) = dom (keyToResultMap c1) \<union> fst ` set rs" by auto
  from a(2) b(2) have "keyToResultMap c2 key = Some p"
    by (auto simp: map_le_def dom_def)
  moreover have "keyToResultMap c \<subseteq>\<^sub>m keyToResultMap c2"
    using a(3) b(2) by (rule map_le_trans)
  ultimately show ?case using eq r a b by auto
qed

lemma distinct_count_le_1: "distinct xs \<Longrightarrow> count_list xs k \<le> 1"
  by (induction xs) auto

lemma distinct_count_1: "distinct xs \<Longrightarrow> k \<in> set xs \<Longrightarrow> count_list xs k = 1"
  by (induction xs) auto

text \<open>
  Claim C2. For requests issued against a fresh cache, in any number and order and without
  waiting for each other: no key has its computation invoked more than once, every
  requested key has it invoked exactly once, every request is answered, and two requests
  for the same key receive the same computation, hence the same eventual result or
  failure.
\<close>

theorem getOrCompute_at_most_once:
  assumes "requests rs new_AsyncWorkCache = (ps, c')"
  shows "(\<forall>k. count_list (invocations c') k \<le> 1) \<and>
         (\<forall>k\<in>fst ` set rs. count_list (invocations c') k = 1) \<and>
         map fst ps = map fst rs \<and>
         (\<forall>k p q. (k, p) \<in> set ps \<and> (k, q) \<in> set ps \<longrightarrow> p = q)"
proof -
  from requests_inv[OF memo_inv_new assms]
  have inv: "memo_inv c'" and res: "\<forall>(k, p)\<in>set ps. keyToResultMap c' k = Some p"
    and keys: "map fst ps = map fst rs"
    and dom: "dom (keyToResultMap c') = fst ` set rs"
    by (auto simp: new_AsyncWorkCache_def)
  from inv have d: "distinct (invocations c')" and s: "set (invocations c') = fst ` set rs"
    using dom by (auto simp: memo_inv_def)
  have "\<forall>k. count_list (invocations c') k \<le> 1" using distinct_count_le_1[OF d] by blast
  moreover have "\<forall>k\<in>fst ` set rs. count_list (invocations c') k = 1"
    using distinct_count_1[OF d] s by blast
  moreover have "\<forall>k p q. (k, p) \<in> set ps \<and> (k, q) \<in> set ps \<longrightarrow> p = q"
  proof (intro allI impI)
    fix k p q assume a: "(k, p) \<in> set ps \<and> (k, q) \<in> set ps"
    from a res have "keyToResultMap c' k = Some p" by blast
    moreover from a res have "keyToResultMap c' k = Some q" by blast
    ultimately show "p = q" by simp
  qed
  ultimately show ?thesis using keys by blast
qed

text \<open>
  Witness for C2: two requests for one key with different computations; the second gets
  the computation of the first, and one invocation is logged.
\<close>

theorem getOrCompute_at_most_once_witness:
  "requests [(''a.html'', \<lambda>u. (1::nat)), (''a.html'', \<lambda>u. 2)] new_AsyncWorkCache
     = ([(''a.html'', 1), (''a.html'', 1)],
        \<lparr> keyToResultMap = [''a.html'' \<mapsto> 1], invocations = [''a.html''] \<rparr>) \<and>
   count_list [''a.html''] ''a.html'' = 1"
proof -
  have run: "requests [(''a.html'', \<lambda>u. (1::nat)), (''a.html'', \<lambda>u. 2)] new_AsyncWorkCache
     = ([(''a.html'', 1), (''a.html'', 1)],
        \<lparr> keyToResultMap = [''a.html'' \<mapsto> 1], invocations = [''a.html''] \<rparr>)"
    by (simp add: getOrCompute_def new_AsyncWorkCache_def)
  from getOrCompute_at_most_once[OF run] run show ?thesis by simp
qed



section \<open>Forks: proofs\<close>

lemma wellFormed_ex: "wellFormed ex_ctx ex_heap"
  by (simp add: wellFormed_def ex_ctx_def ex_heap_def)

lemma fork_forked:
  assumes wf: "wellFormed ctx h1"
    and new: "newCache < nextAddress h1" "newCache \<noteq> cache ctx" "analysisCaches h1 newCache \<noteq> None"
    and old: "analysisCaches h newCache = None" "nextAddress h \<le> nextAddress h1"
      "\<forall>a. a < nextAddress h \<longrightarrow>
          analysisCaches h1 a = analysisCaches h a \<and> telemetryTrackers h1 a = telemetryTrackers h a"
      "cache ctx < nextAddress h"
    and f: "fork ext newCache ctx h1 = (ctx', h')"
  shows "forked ctx h ctx' h'"
proof -
  from f have ctx': "ctx' = \<lparr> parsers = parsers ctx, lazyEdges = lazyEdges ctx, scanners = scanners ctx,
      loader = loader ctx, resolver = resolver ctx, cache = newCache,
      telemetryTracker = telemetryTracker ctx, generation = generation ctx + 1 \<rparr>"
    and h': "h' = h1\<lparr> analysisCaches := (analysisCaches h1)(nextAddress h1 \<mapsto> new_AnalysisCache),
                      telemetryTrackers := (telemetryTrackers h1)(Suc (nextAddress h1) \<mapsto> []),
                      nextAddress := nextAddress h1 + 2 \<rparr>"
    by (auto simp: fork_def new_AnalyzerCacheContext_def Let_def)
  from wf have t: "telemetryTracker ctx < nextAddress h1" by (simp add: wellFormed_def)
  from wf have e: "\<forall>a. nextAddress h1 \<le> a \<longrightarrow> analysisCaches h1 a = None \<and> telemetryTrackers h1 a = None"
    by (simp add: wellFormed_def)
  have wf': "wellFormed ctx' h'"
    unfolding wellFormed_def ctx' h' using new t e by auto
  show ?thesis
    unfolding forked_def using wf' new old unfolding ctx' h' by auto
qed

text \<open>
  Claim C8. \<open>filesChanged urls\<close> and \<open>clearCaches\<close> return a new context holding a new
  AnalysisCache object; the cache object of the original context, like every object that
  existed before, is unchanged; the new context has the parsers, scanners, loader, resolver
  and lazy-edge map of the original, the same telemetry tracker object, and a generation
  one greater (\<open>forked\<close>).
\<close>

theorem fork_snapshot_isolation:
  assumes "wellFormed ctx h"
  shows "(case filesChanged ext kept urls ctx h of (ctx', h') \<Rightarrow> forked ctx h ctx' h') \<and>
         (case clearCaches ext ctx h of (ctx', h') \<Rightarrow> forked ctx h ctx' h')"
proof -
  have alloc: "\<And>content newCache h1 ctx' h'. allocAnalysisCache content h = (newCache, h1) \<Longrightarrow>
      fork ext newCache ctx h1 = (ctx', h') \<Longrightarrow> forked ctx h ctx' h'"
  proof -
    fix content newCache h1 ctx' h'
    assume a: "allocAnalysisCache content h = (newCache, h1)" and f: "fork ext newCache ctx h1 = (ctx', h')"
    from a have n: "newCache = nextAddress h"
      and h1: "h1 = h\<lparr> analysisCaches := (analysisCaches h)(nextAddress h \<mapsto> content),
                        nextAddress := Suc (nextAddress h) \<rparr>"
      by (auto simp: allocAnalysisCache_def)
    from assms have wf1: "wellFormed ctx h1"
      unfolding wellFormed_def h1 by auto
    show "forked ctx h ctx' h'"
    proof (rule fork_forked[OF wf1 _ _ _ _ _ _ _ f])
      show "newCache < nextAddress h1" by (simp add: n h1)
      show "newCache \<noteq> cache ctx" using assms by (auto simp: n wellFormed_def)
      show "analysisCaches h1 newCache \<noteq> None" by (simp add: n h1)
      show "analysisCaches h newCache = None" using assms by (simp add: n wellFormed_def)
      show "nextAddress h \<le> nextAddress h1" by (simp add: h1)
      show "\<forall>a. a < nextAddress h \<longrightarrow>
          analysisCaches h1 a = analysisCaches h a \<and> telemetryTrackers h1 a = telemetryTrackers h a"
        by (simp add: h1)
      show "cache ctx < nextAddress h" using assms by (simp add: wellFormed_def)
    qed
  qed
  have "case filesChanged ext kept urls ctx h of (ctx', h') \<Rightarrow> forked ctx h ctx' h'"
  proof -
    obtain newCache h1 where c: "cacheInvalidate kept (cache ctx) (map (resolveUrl ctx) urls) h = (newCache, h1)"
      by (cases "cacheInvalidate kept (cache ctx) (map (resolveUrl ctx) urls) h")
    obtain ctx' h' where f: "fork ext newCache ctx h1 = (ctx', h')" by (cases "fork ext newCache ctx h1")
    from c obtain content where "allocAnalysisCache content h = (newCache, h1)"
      by (auto simp: cacheInvalidate_def split: option.splits)
    from alloc[OF this f] c f show ?thesis by (simp add: filesChanged_def)
  qed
  moreover have "case clearCaches ext ctx h of (ctx', h') \<Rightarrow> forked ctx h ctx' h'"
  proof -
    obtain newCache h1 where c: "allocAnalysisCache new_AnalysisCache h = (newCache, h1)"
      by (cases "allocAnalysisCache new_AnalysisCache h")
    obtain ctx' h' where f: "fork ext newCache ctx h1 = (ctx', h')" by (cases "fork ext newCache ctx h1")
    from alloc[OF c f] c f show ?thesis by (simp add: clearCaches_def)
  qed
  ultimately show ?thesis by blast
qed

text \<open>Witness for C8: a context of generation 0 whose cache is object 0 and tracker object 1.\<close>

theorem fork_snapshot_isolation_witness:
  "wellFormed ex_ctx ex_heap \<and>
   (case filesChanged ex_ext (\<lambda>content urls. content) [''a.html''] ex_ctx ex_heap of
      (ctx', h') \<Rightarrow> forked ex_ctx ex_heap ctx' h' \<and> cache ctx' = 2 \<and> generation ctx' = 1 \<and>
                   telemetryTracker ctx' = 1 \<and> analysisCaches h' 0 = Some new_AnalysisCache) \<and>
   (case clearCaches ex_ext ex_ctx ex_heap of
      (ctx', h') \<Rightarrow> forked ex_ctx ex_heap ctx' h' \<and> cache ctx' = 2 \<and> generation ctx' = 1 \<and>
                   telemetryTracker ctx' = 1 \<and> analysisCaches h' 0 = Some new_AnalysisCache)"
proof -
  have a: "cache (fst (filesChanged ex_ext (\<lambda>content urls. content) [''a.html''] ex_ctx ex_heap)) = 2 \<and>
      generation (fst (filesChanged ex_ext (\<lambda>content urls. content) [''a.html''] ex_ctx ex_heap)) = 1 \<and>
      telemetryTracker (fst (filesChanged ex_ext (\<lambda>content urls. content) [''a.html''] ex_ctx ex_heap)) = 1 \<and>
      analysisCaches (snd (filesChanged ex_ext (\<lambda>content urls. content) [''a.html''] ex_ctx ex_heap)) 0
        = Some new_AnalysisCache"
    by (simp add: filesChanged_def cacheInvalidate_def allocAnalysisCache_def fork_def
          new_AnalyzerCacheContext_def Let_def ex_ctx_def ex_heap_def)
  have b: "cache (fst (clearCaches ex_ext ex_ctx ex_heap)) = 2 \<and>
      generation (fst (clearCaches ex_ext ex_ctx ex_heap)) = 1 \<and>
      telemetryTracker (fst (clearCaches ex_ext ex_ctx ex_heap)) = 1 \<and>
      analysisCaches (snd (clearCaches ex_ext ex_ctx ex_heap)) 0 = Some new_AnalysisCache"
    by (simp add: clearCaches_def allocAnalysisCache_def fork_def
          new_AnalyzerCacheContext_def Let_def ex_ctx_def ex_heap_def)
  from fork_snapshot_isolation[OF wellFormed_ex, of ex_ext "\<lambda>content urls. content" "[''a.html'']"]
    a b wellFormed_ex
  show ?thesis by (auto simp: case_prod_beta)
qed



section \<open>The pipeline: proofs\<close>

subsection \<open>What a scan leaves alone\<close>

lemma pushWarning_analyzed [simp]:
  "analyzedDocumentPromises (pushWarning r w c) = analyzedDocumentPromises c"
  by (simp add: pushWarning_def split: option.splits)

lemma attachScannedDocument_analyzed [simp]:
  "analyzedDocumentPromises (attachScannedDocument r i r' c) = analyzedDocumentPromises c"
  by (simp add: attachScannedDocument_def split: option.splits)

lemma setScanJob_analyzed [simp]:
  "analyzedDocumentPromises (setScanJob u j c) = analyzedDocumentPromises c"
  by (simp add: setScanJob_def)

lemma parse_analyzed:
  "parse ext ctx u contents c = (p, c') \<Longrightarrow> analyzedDocumentPromises c' = analyzedDocumentPromises c"
  by (auto simp: parse_def Let_def split: option.splits)

lemma scanInlineDocuments_analyzed_aux:
  assumes "\<And>pd cm c r c'. scanDocument n ext ctx pd cm c = Some (r, c') \<Longrightarrow>
             analyzedDocumentPromises c' = analyzedDocumentPromises c"
  shows "scanInlineDocuments n ext ctx a u fs c = Some (e, c') \<Longrightarrow>
         analyzedDocumentPromises c' = analyzedDocumentPromises c"
proof (induction fs arbitrary: c)
  case Nil
  then show ?case by simp
next
  case (Cons x fs)
  obtain i f where x: "x = (i, f)" by (cases x)
  show ?case
  proof (cases f)
    case (ScannedInlineDocument t cs off cm node sd)
    with Cons.prems x show ?thesis
      by (auto split: sum.splits js_error.splits option.splits prod.splits
               dest!: Cons.IH assms)
  qed (use Cons x in auto)
qed

lemma scanDocument_analyzed:
  "scanDocument n ext ctx pd cm c = Some (r, c') \<Longrightarrow>
   analyzedDocumentPromises c' = analyzedDocumentPromises c"
proof (induction n arbitrary: pd cm c r c')
  case 0
  then show ?case by simp
next
  case (Suc n)
  have inl: "\<And>a u fs c e c'. scanInlineDocuments n ext ctx a u fs c = Some (e, c') \<Longrightarrow>
      analyzedDocumentPromises c' = analyzedDocumentPromises c"
    by (rule scanInlineDocuments_analyzed_aux[where n = n]) (rule Suc.IH)
  from Suc.prems show ?case
    by (auto simp: Let_def split: sum.splits if_splits option.splits prod.splits dest!: inl)
qed

lemma scanLocal_analyzed:
  "scanLocal n ext ctx u contents c = Some (p, c') \<Longrightarrow>
   analyzedDocumentPromises c' = analyzedDocumentPromises c"
  by (auto simp: scanLocal_def settleScanned_def Let_def
           split: option.splits prod.splits promise.splits sum.splits
           dest!: parse_analyzed scanDocument_analyzed)

lemma scanImports_analyzed_aux:
  assumes "\<And>u contents c j c'. scanLaunch n ext ctx u contents c = Some (j, c') \<Longrightarrow>
             analyzedDocumentPromises c' = analyzedDocumentPromises c"
  shows "scanImports n ext ctx r fs c = Some c' \<Longrightarrow>
         analyzedDocumentPromises c' = analyzedDocumentPromises c"
proof (induction fs arbitrary: c)
  case Nil
  then show ?case by simp
next
  case (Cons f fs)
  from Cons.prems show ?case
    by (auto split: option.splits prod.splits scan_job.splits dest!: Cons.IH assms)
qed

lemma scanLaunch_analyzed:
  "scanLaunch n ext ctx u contents c = Some (j, c') \<Longrightarrow>
   analyzedDocumentPromises c' = analyzedDocumentPromises c"
proof (induction n arbitrary: u contents c j c')
  case 0
  then show ?case by simp
next
  case (Suc n)
  have imp: "\<And>r fs c c'. scanImports n ext ctx r fs c = Some c' \<Longrightarrow>
      analyzedDocumentPromises c' = analyzedDocumentPromises c"
    by (rule scanImports_analyzed_aux[where n = n]) (rule Suc.IH)
  from Suc.prems show ?case
    by (auto split: option.splits prod.splits promise.splits dest!: imp scanLocal_analyzed)
qed

lemma scan_analyzed:
  "scan n ext ctx u contents c = Some (p, c') \<Longrightarrow>
   analyzedDocumentPromises c' = analyzedDocumentPromises c"
  by (auto simp: scan_def scanResult_def
           split: option.splits prod.splits scan_job.splits traversal.splits
           dest!: scanLaunch_analyzed)

lemma analyze_entry:
  "analyze n ext ctx u contents c = Some (q, c') \<Longrightarrow>
   analyzedDocumentPromises c' (resolveUrl ctx u) = Some q"
  by (auto simp: analyze_def Let_def settleAnalyzed_def
           split: option.splits prod.splits promise.splits
           dest!: scan_analyzed)

lemma parse_entry:
  "parse ext ctx u contents c = (p, c') \<Longrightarrow> parsedDocumentPromises c' u = Some p"
  by (auto simp: parse_def Let_def split: option.splits)



lemma analyze_keeps:
  "analyzedDocumentPromises c k = Some q \<Longrightarrow> analyze n ext ctx u contents c = Some (p, c') \<Longrightarrow>
   analyzedDocumentPromises c' k = Some q"
  by (auto simp: analyze_def Let_def settleAnalyzed_def getDocument_def
           split: option.splits prod.splits promise.splits if_splits
           dest!: scan_analyzed)

text \<open>
  Claim C9. Within one AnalysisCache, what a resolved URL parses to is fixed by the first
  request: \<open>parse\<close> is keyed by the resolved URL alone, so a second call with other contents
  returns the cached result and leaves the cache as it is. The same holds at the top:
  after \<open>analyze u1 contentsA\<close>, an \<open>analyze u2 contentsB\<close> for the same resolved URL ignores
  \<open>contentsB\<close> and returns the result of the first call without touching the cache, also
  after any other \<open>analyze\<close> call in between.
\<close>

theorem first_request_fixes_result:
  "(parse ext ctx u contentsA c = (p, c1) \<longrightarrow> parse ext ctx u contentsB c1 = (p, c1)) \<and>
   (analyze n ext ctx u1 contentsA c = Some (q, c2) \<and> resolveUrl ctx u2 = resolveUrl ctx u1 \<longrightarrow>
      analyze m ext ctx u2 contentsB c2 = Some (q, c2) \<and>
      (\<forall>n' u' contents' q' c3.
          analyze n' ext ctx u' contents' c2 = Some (q', c3) \<longrightarrow>
          analyze m ext ctx u2 contentsB c3 = Some (q, c3)))"
proof (intro conjI impI allI)
  assume "parse ext ctx u contentsA c = (p, c1)"
  from parse_entry[OF this] show "parse ext ctx u contentsB c1 = (p, c1)"
    by (simp add: parse_def)
next
  assume a: "analyze n ext ctx u1 contentsA c = Some (q, c2) \<and> resolveUrl ctx u2 = resolveUrl ctx u1"
  then have "analyzedDocumentPromises c2 (resolveUrl ctx u2) = Some q"
    using analyze_entry[of n ext ctx u1 contentsA c q c2] by simp
  then show "analyze m ext ctx u2 contentsB c2 = Some (q, c2)"
    by (simp add: analyze_def)
next
  fix n' u' contents' q' c3
  assume a: "analyze n ext ctx u1 contentsA c = Some (q, c2) \<and> resolveUrl ctx u2 = resolveUrl ctx u1"
    and b: "analyze n' ext ctx u' contents' c2 = Some (q', c3)"
  from a have "analyzedDocumentPromises c2 (resolveUrl ctx u2) = Some q"
    using analyze_entry[of n ext ctx u1 contentsA c q c2] by simp
  from analyze_keeps[OF this b] show "analyze m ext ctx u2 contentsB c3 = Some (q, c3)"
    by (simp add: analyze_def)
qed



subsection \<open>What a blocked traversal waits on\<close>

lemma awaitDeps_blocked_aux:
  assumes "\<And>key V L (s::'k promise_all) k s'.
             transitiveAwait n key V L s = Some (Blocked k, s') \<Longrightarrow>
             k \<in> reachable s key \<and> successors s k = None"
  shows "awaitDeps n ds V L (s::'k promise_all) = Some (Blocked k, s') \<Longrightarrow>
         k \<in> (\<Union>d\<in>set ds. reachable s d) \<and> successors s k = None"
proof (induction ds arbitrary: V L)
  case Nil
  then show ?case by simp
next
  case (Cons d ds)
  from Cons.prems obtain t s1 where r1: "transitiveAwait n d V L s = Some (t, s1)"
    by (cases "transitiveAwait n d V L s") auto
  show ?case
  proof (cases t)
    case (Blocked k')
    with Cons.prems r1 have "k' = k" "s1 = s'" by auto
    with assms[of d V L s k s'] r1 Blocked show ?thesis by auto
  next
    case (Returned V1 L1)
    with transitiveAwait_sound[of n d V L s V1 L1 s1] r1 have "s1 = s" by simp
    with Cons.prems r1 Returned have "awaitDeps n ds V1 L1 s = Some (Blocked k, s')" by simp
    from Cons.IH[OF this] show ?thesis by auto
  qed
qed

lemma transitiveAwait_blocked:
  "transitiveAwait n key V L s = Some (Blocked k, s') \<Longrightarrow>
   k \<in> reachable s key \<and> successors s k = None"
proof (induction n arbitrary: key V L s k s')
  case 0
  then show ?case by simp
next
  case (Suc n)
  show ?case
  proof (cases "key \<in> V")
    case True
    with Suc.prems show ?thesis by simp
  next
    case False
    show ?thesis
    proof (cases "successors s key")
      case None
      with False Suc.prems transitiveAwait_Suc_unrecorded[of key V s n L]
      have "k = key" by auto
      with None show ?thesis by (simp add: reachable_refl)
    next
      case (Some ds)
      have run: "awaitDeps n ds (insert key V) (L @ [key]) s = Some (Blocked k, s')"
        using Suc.prems by (simp only: transitiveAwait_Suc_recorded[OF False Some])
      have "k \<in> (\<Union>d\<in>set ds. reachable s d) \<and> successors s k = None"
        by (rule awaitDeps_blocked_aux[OF _ run]) (rule Suc.IH)
      with reachable_step[OF Some] show ?thesis by blast
    qed
  qed
qed

subsection \<open>Scanned documents stay in the store\<close>

lemma pushWarning_dom [simp]: "dom (objects (pushWarning r w c)) = dom (objects c)"
  by (auto simp: pushWarning_def split: option.splits)

lemma attachScannedDocument_dom [simp]:
  "dom (objects (attachScannedDocument r i r' c)) = dom (objects c)"
  by (auto simp: attachScannedDocument_def split: option.splits)

lemma scanInlineDocuments_dom_aux:
  assumes "\<And>pd cm c r c'. scanDocument n ext ctx pd cm c = Some (r, c') \<Longrightarrow>
             dom (objects c) \<subseteq> dom (objects c')"
  shows "scanInlineDocuments n ext ctx b u fs c = Some (e, c') \<Longrightarrow>
         dom (objects c) \<subseteq> dom (objects c')"
proof (induction fs arbitrary: c)
  case Nil
  then show ?case by simp
next
  case (Cons x fs)
  obtain i f where x: "x = (i, f)" by (cases x)
  show ?case
  proof (cases f)
    case (ScannedInlineDocument t cs off cm node sd)
    with Cons.prems x show ?thesis
      apply (simp split: sum.splits js_error.splits option.splits prod.splits)
      using Cons.IH assms
          apply (metis pushWarning_dom)
      using Cons.IH assms
         apply (metis (no_types, lifting) subset_trans)
      using Cons.IH assms
        apply (metis (no_types, lifting) pushWarning_dom subset_trans)
      using Cons.IH assms
       apply (metis (no_types, lifting) subset_trans)
      using Cons.IH assms
      apply (metis (no_types, lifting) attachScannedDocument_dom subset_trans)
      done
  qed (use Cons x in auto)
qed

lemma scanDocument_dom:
  "scanDocument n ext ctx pd cm c = Some (r, c') \<Longrightarrow>
   dom (objects c) \<subseteq> dom (objects c') \<and> (\<forall>x. r = Inr x \<longrightarrow> x \<in> dom (objects c'))"
proof (induction n arbitrary: pd cm c r c')
  case 0
  then show ?case by simp
next
  case (Suc n)
  have inl: "\<And>b u fs c e c'. scanInlineDocuments n ext ctx b u fs c = Some (e, c') \<Longrightarrow>
      dom (objects c) \<subseteq> dom (objects c')"
    by (rule scanInlineDocuments_dom_aux[where n = n]) (use Suc.IH in blast)+
  from Suc.prems show ?case
    by (auto simp: Let_def split: sum.splits if_splits option.splits prod.splits
             dest!: inl)
       (meson domD domI subsetD)+
qed

text \<open>
  Claim C6. When a local scan runs and succeeds with the ScannedDocument at \<open>r\<close>, the
  successor list it records for the document in the Dependency Graph is the list of
  resolved URLs of the eager imports of \<open>r\<close>, and those are exactly the nested features
  that are a ScannedImport whose type is not \<^verbatim>\<open>'lazy-html-import'\<close>: no lazy import feature is
  among them. \<open>whenReady\<close> for the document follows recorded successors only: the keys it has
  visited when it returns, and the key it waits on when it does not, are reachable
  through these edges.
\<close>

theorem scanLocal_registers_eager_imports:
  assumes "scannedDocumentPromises c u = None"
    and "scanLocal n ext ctx u contents c = Some (Fulfilled r, c')"
  shows "successors (dependencyGraph c') u
           = Some (map (\<lambda>i. resolveUrl ctx (importUrl i)) (eagerImports ext c' r)) \<and>
         (\<exists>d. objects c' r = Some d \<and>
              set (eagerImports ext c' r)
                = {f \<in> set (getNestedFeatures ext (objects c') d).
                     \<exists>t iu sr usr. f = ScannedImport t iu sr usr \<and> t \<noteq> ''lazy-html-import''}) \<and>
         (\<forall>iu sr usr. ScannedImport ''lazy-html-import'' iu sr usr \<notin> set (eagerImports ext c' r)) \<and>
         (\<forall>m k g. whenReady m u (dependencyGraph c') = Some (Blocked k, g) \<longrightarrow>
              k \<in> reachable (dependencyGraph c') u) \<and>
         (\<forall>m V L g. whenReady m u (dependencyGraph c') = Some (Returned V L, g) \<longrightarrow>
              V = reachable (dependencyGraph c') u)"
proof -
  from assms obtain pd c1 c2 g where
    p: "parse ext ctx u contents c = (Fulfilled pd, c1)"
    and sd: "scanDocument n ext ctx pd None c1 = Some (Inr r, c2)"
    and add: "addDocument u (map (\<lambda>i. resolveUrl ctx (importUrl i)) (eagerImports ext c2 r))
                (dependencyGraph c2) = Inr g"
    and c': "c' = c2\<lparr> dependencyGraph := g, scannedDocumentPromises := (scannedDocumentPromises c2)(u \<mapsto> Fulfilled r) \<rparr>"
    by (auto simp: scanLocal_def settleScanned_def Let_def
             split: option.splits prod.splits promise.splits sum.splits)
  have obj: "objects c' = objects c2" by (simp add: c')
  have ei: "eagerImports ext c' r = eagerImports ext c2 r" unfolding eagerImports_def obj ..
  from scanDocument_dom[OF sd] obtain d where d: "objects c2 r = Some d" by auto
  have isE: "isEagerImport f \<longleftrightarrow> (\<exists>t iu sr usr. f = ScannedImport t iu sr usr \<and> t \<noteq> ''lazy-html-import'')" for f
    by (cases f) auto
  have "successors (dependencyGraph c') u
           = Some (map (\<lambda>i. resolveUrl ctx (importUrl i)) (eagerImports ext c' r))"
  proof -
    from add have "successors g u = Some (map (\<lambda>i. resolveUrl ctx (importUrl i)) (eagerImports ext c2 r))"
      unfolding addDocument_def by (rule resolve_recorded)
    moreover have "dependencyGraph c' = g" by (simp add: c')
    ultimately show ?thesis by (simp only: ei)
  qed
  moreover have "\<exists>d. objects c' r = Some d \<and>
              set (eagerImports ext c' r)
                = {f \<in> set (getNestedFeatures ext (objects c') d).
                     \<exists>t iu sr usr. f = ScannedImport t iu sr usr \<and> t \<noteq> ''lazy-html-import''}"
    using d obj by (auto simp: eagerImports_def isE)
  moreover have "\<forall>iu sr usr. ScannedImport ''lazy-html-import'' iu sr usr \<notin> set (eagerImports ext c' r)"
    by (auto simp: eagerImports_def split: option.splits)
  moreover have "\<forall>m k g. whenReady m u (dependencyGraph c') = Some (Blocked k, g) \<longrightarrow>
              k \<in> reachable (dependencyGraph c') u"
    using transitiveAwait_blocked by (fastforce simp: whenReady_def promiseAllTransitive_def)
  moreover have "\<forall>m V L g. whenReady m u (dependencyGraph c') = Some (Returned V L, g) \<longrightarrow>
              V = reachable (dependencyGraph c') u"
    using promiseAllTransitive_sound by (fastforce simp: whenReady_def)
  ultimately show ?thesis by blast
qed



subsection \<open>Package-level analysis\<close>

lemma option_pair: "map_option fst x = Some a \<Longrightarrow> x = Some (a, snd (the x))"
  by (cases x) auto



















text \<open>
  Witness for C6: \<^verbatim>\<open>a.html\<close> has two eager imports and a lazy one; the edges recorded are the
  two eager ones.
\<close>

theorem scanLocal_registers_eager_imports_witness:
  "scannedDocumentPromises new_AnalysisCache ''a.html'' = None \<and>
   map_option fst (scanLocal 3 ex_ext ex_ctx ''a.html'' Undefined new_AnalysisCache) = Some (Fulfilled 0) \<and>
   map_option (\<lambda>(p, c'). map importUrl (eagerImports ex_ext c' 0))
      (scanLocal 3 ex_ext ex_ctx ''a.html'' Undefined new_AnalysisCache)
     = Some [''missing.html'', ''leaf.html''] \<and>
   map_option (\<lambda>(p, c'). successors (dependencyGraph c') ''a.html'')
      (scanLocal 3 ex_ext ex_ctx ''a.html'' Undefined new_AnalysisCache)
     = Some (Some [''missing.html'', ''leaf.html''])"
proof -
  let ?x = "scanLocal 3 ex_ext ex_ctx ''a.html'' Undefined new_AnalysisCache"
  have n: "scannedDocumentPromises new_AnalysisCache ''a.html'' = None"
    by (simp add: new_AnalysisCache_def)
  have a: "map_option fst ?x = Some (Fulfilled 0)" by code_simp
  have b: "map_option (\<lambda>(p, c'). map importUrl (eagerImports ex_ext c' 0)) ?x
     = Some [''missing.html'', ''leaf.html'']" by code_simp
  have r: "resolveUrl ex_ctx = (\<lambda>u. u)" by (simp add: resolveUrl_def ex_ctx_def fun_eq_iff)
  from scanLocal_registers_eager_imports[OF n option_pair[OF a]]
  have "successors (dependencyGraph (snd (the ?x))) ''a.html''
          = Some (map importUrl (eagerImports ex_ext (snd (the ?x)) 0))"
    by (simp add: r)
  with option_pair[OF a] b
  have "map_option (\<lambda>(p, c'). successors (dependencyGraph c') ''a.html'') ?x
     = Some (Some [''missing.html'', ''leaf.html''])"
    by (cases ?x) auto
  with n a b show ?thesis by blast
qed

text \<open>
  Witness for C9: \<^verbatim>\<open>leaf.html\<close> analyzed with contents A, then with contents B, also with an
  analysis of \<^verbatim>\<open>w.html\<close> in between: the document parsed from A stays.
\<close>

theorem first_request_fixes_result_witness:
  "map_option fst (analyze 5 ex_ext ex_ctx ''leaf.html'' (Contents ''A'') new_AnalysisCache)
     = Some (Fulfilled (Some (Document 0))) \<and>
   (case analyze 5 ex_ext ex_ctx ''leaf.html'' (Contents ''A'') new_AnalysisCache of
      None \<Rightarrow> False
    | Some (q, c2) \<Rightarrow>
        analyze 5 ex_ext ex_ctx ''leaf.html'' (Contents ''B'') c2 = Some (q, c2) \<and>
        map_option (map_option doc_contents) (map_option (\<lambda>d. Some (document d)) (objects c2 0))
          = Some (Some ''A'') \<and>
        (case analyze 5 ex_ext ex_ctx ''w.html'' Undefined c2 of
           None \<Rightarrow> False
         | Some (q', c3) \<Rightarrow> analyze 5 ex_ext ex_ctx ''leaf.html'' (Contents ''B'') c3 = Some (q, c3))) \<and>
   fst (parse ex_ext ex_ctx ''leaf.html'' (Contents ''B'')
          (snd (parse ex_ext ex_ctx ''leaf.html'' (Contents ''A'') new_AnalysisCache)))
     = Fulfilled \<lparr> doc_url = ''leaf.html'', doc_type = ''html'', doc_isInline = False,
                   doc_contents = ''A'' \<rparr>"
proof -
  let ?x = "analyze 5 ex_ext ex_ctx ''leaf.html'' (Contents ''A'') new_AnalysisCache"
  let ?y = "parse ex_ext ex_ctx ''leaf.html'' (Contents ''A'') new_AnalysisCache"
  let ?z = "analyze 5 ex_ext ex_ctx ''w.html'' Undefined (snd (the ?x))"
  have a: "map_option fst ?x = Some (Fulfilled (Some (Document 0)))" by code_simp
  have b: "map_option (\<lambda>(q, c2). map_option (map_option doc_contents)
               (map_option (\<lambda>d. Some (document d)) (objects c2 0))) ?x = Some (Some (Some ''A''))"
    by code_simp
  have z: "map_option fst ?z = Some (Rejected (WarningCarryingException ex_warning))"
    by code_simp
  have p: "fst ?y = Fulfilled \<lparr> doc_url = ''leaf.html'', doc_type = ''html'', doc_isInline = False,
                   doc_contents = ''A'' \<rparr>"
    by code_simp
  note inst = first_request_fixes_result[where ext = ex_ext and ctx = ex_ctx and u = "''leaf.html''"
      and contentsA = "Contents ''A''" and c = new_AnalysisCache and p = "fst ?y" and ?c1.0 = "snd ?y"
      and contentsB = "Contents ''B''" and n = 5 and ?u1.0 = "''leaf.html''"
      and q = "Fulfilled (Some (Document 0))" and ?c2.0 = "snd (the ?x)" and ?u2.0 = "''leaf.html''"
      and m = 5]
  from inst have 1: "parse ex_ext ex_ctx ''leaf.html'' (Contents ''B'') (snd ?y) = (fst ?y, snd ?y)"
    by simp
  from inst option_pair[OF a]
  have 2: "analyze 5 ex_ext ex_ctx ''leaf.html'' (Contents ''B'') (snd (the ?x))
             = Some (Fulfilled (Some (Document 0)), snd (the ?x))" by simp
  from inst option_pair[OF a] option_pair[OF z]
  have 3: "analyze 5 ex_ext ex_ctx ''leaf.html'' (Contents ''B'') (snd (the ?z))
             = Some (Fulfilled (Some (Document 0)), snd (the ?z))" by blast
  from 3 option_pair[OF z]
  have 4: "case ?z of None \<Rightarrow> False
         | Some (q', c3) \<Rightarrow> analyze 5 ex_ext ex_ctx ''leaf.html'' (Contents ''B'') c3
             = Some (Fulfilled (Some (Document 0)), c3)"
    by (cases ?z) auto
  from a b 2 4 option_pair[OF a]
  have "case ?x of None \<Rightarrow> False
    | Some (q, c2) \<Rightarrow>
        analyze 5 ex_ext ex_ctx ''leaf.html'' (Contents ''B'') c2 = Some (q, c2) \<and>
        map_option (map_option doc_contents) (map_option (\<lambda>d. Some (document d)) (objects c2 0))
          = Some (Some ''A'') \<and>
        (case analyze 5 ex_ext ex_ctx ''w.html'' Undefined c2 of
           None \<Rightarrow> False
         | Some (q', c3) \<Rightarrow> analyze 5 ex_ext ex_ctx ''leaf.html'' (Contents ''B'') c3 = Some (q, c3))"
    by (cases ?x) auto
  with a 1 p show ?thesis by simp
qed

subsection \<open>Failed imports\<close>

text \<open>
  \<open>whenReady\<close> cannot return while a key reachable from its argument has no successors
  recorded, whatever the fuel.
\<close>

lemma whenReady_waits_for_unrecorded:
  assumes "k \<in> reachable g u" and "successors g k = None"
  shows "whenReady n u g \<noteq> Some (Returned V L, g')"
proof
  assume "whenReady n u g = Some (Returned V L, g')"
  then have "promiseAllTransitive n u g = Some (Returned V L, g')" by (simp add: whenReady_def)
  from promiseAllTransitive_sound[OF this] have "\<forall>k\<in>reachable g u. successors g k \<noteq> None" by simp
  with assms show False by blast
qed

text \<open>
  Claim C4, at \<^verbatim>\<open>a.html\<close>, whose eager import \<^verbatim>\<open>missing.html\<close> cannot be loaded and whose eager
  import \<^verbatim>\<open>leaf.html\<close> can. The scanned document of \<^verbatim>\<open>a.html\<close> gains the Warning with code
  \<^verbatim>\<open>could-not-load\<close>, severity ERROR and the import's source range, and the sibling
  \<^verbatim>\<open>leaf.html\<close> is scanned. But the failed local scan of \<^verbatim>\<open>missing.html\<close> never reaches
  \<^verbatim>\<open>addDocument\<close>, so no successors are ever recorded for it, and \<^verbatim>\<open>whenReady('a.html')\<close>
  waits on its Deferred: the transitive scan of \<^verbatim>\<open>a.html\<close>, and with it \<^verbatim>\<open>analyze\<close>, is
  never settled.
\<close>

theorem failed_import_blocks_importer:
  "map_option fst (scan 5 ex_ext ex_ctx ''a.html'' Undefined new_AnalysisCache) = Some Pending \<and>
   map_option (\<lambda>(p, c). map_option warnings (objects c 0))
      (scan 5 ex_ext ex_ctx ''a.html'' Undefined new_AnalysisCache)
     = Some (Some [\<lparr> sourceRange = ex_range ''a.html'', code = ''could-not-load'',
                     message = ''Unable to load import: Can't load URL: missing.html'',
                     severity = ERROR \<rparr>]) \<and>
   map_option (\<lambda>(p, c). map (dependenciesScannedPromises c) [''a.html'', ''missing.html'', ''leaf.html''])
      (scan 5 ex_ext ex_ctx ''a.html'' Undefined new_AnalysisCache)
     = Some [Some (AwaitingReady 0), Some (ScanFailed (Error ''Can't load URL: missing.html'')),
             Some (AwaitingReady 1)] \<and>
   map_option (\<lambda>(p, c). map (successors (dependencyGraph c)) [''a.html'', ''missing.html'', ''leaf.html''])
      (scan 5 ex_ext ex_ctx ''a.html'' Undefined new_AnalysisCache)
     = Some [Some [''missing.html'', ''leaf.html''], None, Some []] \<and>
   map_option fst (analyze 5 ex_ext ex_ctx ''a.html'' Undefined new_AnalysisCache) = Some Pending"
  by code_simp

text \<open>
  Claim C3, at \<^verbatim>\<open>c.html\<close>, whose eager import \<^verbatim>\<open>x.foo\<close> can be loaded and has no parser. The
  scan of \<^verbatim>\<open>x.foo\<close> fails with a NoKnownParserError; the handler's branch for that error is
  empty and falls through to the push, so the scanned document of \<^verbatim>\<open>c.html\<close> gains a
  \<^verbatim>\<open>could-not-load\<close> warning for the import. As for any failed import, the transitive scan
  of \<^verbatim>\<open>c.html\<close> is never settled.
\<close>

theorem unsupported_import_warns:
  "parseContents ex_ctx ''foo'' ''contents of x.foo'' ''x.foo'' None
     = Inl (NoKnownParserError ''No parser for for file type foo'') \<and>
   map_option (\<lambda>(p, c). map_option warnings (objects c 0))
      (scan 5 ex_ext ex_ctx ''c.html'' Undefined new_AnalysisCache)
     = Some (Some [\<lparr> sourceRange = ex_range ''c.html'', code = ''could-not-load'',
                     message = ''Unable to load import: No parser for for file type foo'',
                     severity = ERROR \<rparr>]) \<and>
   map_option (\<lambda>(p, c). map (dependenciesScannedPromises c) [''c.html'', ''x.foo''])
      (scan 5 ex_ext ex_ctx ''c.html'' Undefined new_AnalysisCache)
     = Some [Some (AwaitingReady 0),
             Some (ScanFailed (NoKnownParserError ''No parser for for file type foo''))] \<and>
   map_option fst (scan 5 ex_ext ex_ctx ''c.html'' Undefined new_AnalysisCache) = Some Pending"
  by code_simp

text \<open>
  For comparison, \<^verbatim>\<open>d.html\<close> and \<^verbatim>\<open>e.html\<close> import each other: the transitive scan of
  \<^verbatim>\<open>d.html\<close> is fulfilled and both documents' edges are recorded.
\<close>

lemma cyclic_imports_scan:
  "map_option fst (scan 5 ex_ext ex_ctx ''d.html'' Undefined new_AnalysisCache) = Some (Fulfilled 0) \<and>
   map_option (\<lambda>(p, c). map (successors (dependencyGraph c)) [''d.html'', ''e.html''])
      (scan 5 ex_ext ex_ctx ''d.html'' Undefined new_AnalysisCache)
     = Some [Some [''e.html''], Some [''d.html'']]"
  by code_simp



subsection \<open>A failed import is never ready\<close>

text \<open>
  The two facts above hold in general. The handler pushes the warning for a
  NoKnownParserError as for any other error:
\<close>

lemma unknown_parser_import_warns:
  "scanLaunch n ext ctx (resolveUrl ctx (importUrl f)) Undefined c
     = Some (ScanFailed (NoKnownParserError m), c1) \<Longrightarrow>
   scanImports n ext ctx r (f # rest) c
     = scanImports n ext ctx r rest (pushWarning r (couldNotLoad (NoKnownParserError m) f) c1)"
  by simp

text \<open>
  And in every cache the pipeline builds (\<open>consistent\<close>), a document with a recorded
  successor whose scan failed is never fulfilled by \<open>scan\<close>, whatever the fuel.
\<close>

lemma localScans_pushWarning [simp]: "localScans (pushWarning r w c) = localScans c"
  by (simp add: localScans_def pushWarning_def split: option.splits)

lemma localScans_attach [simp]: "localScans (attachScannedDocument r i r' c) = localScans c"
  by (simp add: localScans_def attachScannedDocument_def split: option.splits)

lemma parse_localScans: "parse ext ctx u contents c = (p, c') \<Longrightarrow> localScans c' = localScans c"
  by (auto simp: parse_def Let_def localScans_def split: option.splits)

lemma scanInlineDocuments_localScans_aux:
  assumes "\<And>pd cm c r c'. scanDocument n ext ctx pd cm c = Some (r, c') \<Longrightarrow>
             localScans c' = localScans c"
  shows "scanInlineDocuments n ext ctx a u fs c = Some (e, c') \<Longrightarrow> localScans c' = localScans c"
proof (induction fs arbitrary: c)
  case Nil
  then show ?case by simp
next
  case (Cons x fs)
  obtain i f where x: "x = (i, f)" by (cases x)
  show ?case
  proof (cases f)
    case (ScannedInlineDocument t cs off cm node sd)
    with Cons.prems x show ?thesis
      by (auto split: sum.splits js_error.splits option.splits prod.splits
               dest!: Cons.IH assms)
  qed (use Cons x in auto)
qed

lemma scanDocument_localScans:
  "scanDocument n ext ctx pd cm c = Some (r, c') \<Longrightarrow> localScans c' = localScans c"
proof (induction n arbitrary: pd cm c r c')
  case 0
  then show ?case by simp
next
  case (Suc n)
  have inl: "\<And>a u fs c e c'. scanInlineDocuments n ext ctx a u fs c = Some (e, c') \<Longrightarrow>
      localScans c' = localScans c"
    by (rule scanInlineDocuments_localScans_aux[where n = n]) (rule Suc.IH)
  from Suc.prems show ?case
    by (auto simp: Let_def split: sum.splits if_splits option.splits prod.splits dest!: inl)
       (simp_all add: localScans_def)
qed

lemma scanLocal_entry:
  "scanLocal n ext ctx u contents c = Some (p, c') \<Longrightarrow> scannedDocumentPromises c' u = Some p"
  by (auto simp: scanLocal_def settleScanned_def Let_def
           split: option.splits prod.splits promise.splits sum.splits)

lemma successors_resolve_other:
  "resolve u ds g = Inr g' \<Longrightarrow> k \<noteq> u \<Longrightarrow> successors g' k = successors g k"
  by (auto simp: resolve_def getDeferredFor_def deferred_resolve_def successors_def Let_def
           split: option.splits sum.splits)

lemma resolve_unrecorded:
  "successors g u = None \<Longrightarrow> \<exists>g'. resolve u ds g = Inr g'"
  by (simp add: resolve_new)

lemma scanLocal_consistent:
  assumes "consistent c" and "scanLocal n ext ctx u contents c = Some (p, c')"
  shows "consistent c' \<and> dependenciesScannedPromises c' = dependenciesScannedPromises c"
proof (cases "scannedDocumentPromises c u")
  case (Some q)
  with assms show ?thesis by (simp add: scanLocal_def)
next
  case None
  with assms(1) have unrec: "successors (dependencyGraph c) u = None"
    by (cases "successors (dependencyGraph c) u") (auto simp: consistent_def)
  from None assms(1) have nf: "\<And>e. dependenciesScannedPromises c u \<noteq> Some (ScanFailed e)"
    by (auto simp: consistent_def)
  obtain q c1 where pr: "parse ext ctx u contents c = (q, c1)" by (cases "parse ext ctx u contents c")
  from parse_localScans[OF pr] have l1: "localScans c1 = localScans c" .
  have upd: "consistent c'" "dependenciesScannedPromises c' = dependenciesScannedPromises c"
    if c': "c' = c2\<lparr> scannedDocumentPromises := (scannedDocumentPromises c2)(u \<mapsto> Rejected e) \<rparr>"
      and l2: "localScans c2 = localScans c" for c2 e
    using assms(1) None unrec nf l2 unfolding c' consistent_def localScans_def by auto
  have upd': "consistent c'" "dependenciesScannedPromises c' = dependenciesScannedPromises c"
    if c': "c' = c2\<lparr> scannedDocumentPromises := (scannedDocumentPromises c2)(u \<mapsto> Pending) \<rparr>"
      and l2: "localScans c2 = localScans c" for c2
    using assms(1) None unrec nf l2 unfolding c' consistent_def localScans_def by auto
  show ?thesis
  proof (cases q)
    case Pending
    with assms(2) None pr have "c' = c1\<lparr> scannedDocumentPromises := (scannedDocumentPromises c1)(u \<mapsto> Pending) \<rparr>"
      by (auto simp: scanLocal_def settleScanned_def)
    from upd'[OF this l1] show ?thesis by simp
  next
    case (Rejected e)
    with assms(2) None pr have "c' = c1\<lparr> scannedDocumentPromises := (scannedDocumentPromises c1)(u \<mapsto> Rejected e) \<rparr>"
      by (auto simp: scanLocal_def settleScanned_def)
    from upd[OF this l1] show ?thesis by simp
  next
    case (Fulfilled pd)
    with assms(2) None pr obtain x c2 where sd: "scanDocument n ext ctx pd None c1 = Some (x, c2)"
      by (auto simp: scanLocal_def split: option.splits)
    from scanDocument_localScans[OF sd] l1 have l2: "localScans c2 = localScans c" by simp
    show ?thesis
    proof (cases x)
      case (Inl e)
      with assms(2) None pr Fulfilled sd
      have "c' = c2\<lparr> scannedDocumentPromises := (scannedDocumentPromises c2)(u \<mapsto> Rejected e) \<rparr>"
        by (auto simp: scanLocal_def settleScanned_def)
      from upd[OF this l2] show ?thesis by simp
    next
      case (Inr r)
      let ?ds = "map (\<lambda>i. resolveUrl ctx (importUrl i)) (eagerImports ext c2 r)"
      from l2 unrec have "successors (dependencyGraph c2) u = None" by (simp add: localScans_def)
      from resolve_unrecorded[OF this, of ?ds] obtain g where g: "resolve u ?ds (dependencyGraph c2) = Inr g"
        by blast
      with assms(2) None pr Fulfilled sd Inr
      have c': "c' = c2\<lparr> dependencyGraph := g,
                           scannedDocumentPromises := (scannedDocumentPromises c2)(u \<mapsto> Fulfilled r) \<rparr>"
        by (auto simp: scanLocal_def settleScanned_def addDocument_def Let_def)
      have other: "\<And>k. k \<noteq> u \<Longrightarrow> successors g k = successors (dependencyGraph c) k"
        using successors_resolve_other[OF g] l2 by (simp add: localScans_def)
      have "consistent c'"
        unfolding consistent_def
      proof (intro conjI allI impI)
        fix k ds assume "successors (dependencyGraph c') k = Some ds"
        then show "\<exists>r. scannedDocumentPromises c' k = Some (Fulfilled r)"
          using assms(1) other[of k] l2 unfolding c' consistent_def localScans_def
          by (cases "k = u") auto
      next
        fix k e assume "dependenciesScannedPromises c' k = Some (ScanFailed e)"
        then show "scannedDocumentPromises c' k = Some (Rejected e)"
          using assms(1) nf l2 unfolding c' consistent_def localScans_def
          by (cases "k = u") auto
      qed
      moreover have "dependenciesScannedPromises c' = dependenciesScannedPromises c"
        using l2 by (simp add: c' localScans_def)
      ultimately show ?thesis by simp
    qed
  qed
qed



lemma consistent_localScans: "localScans c' = localScans c \<Longrightarrow> consistent c' = consistent c"
  by (auto simp: consistent_def localScans_def)

lemma consistent_new: "consistent new_AnalysisCache"
  by (simp add: consistent_def new_AnalysisCache_def successors_def
        new_AsyncCyclicTransitivePromiseAll_def)

lemma consistent_pushWarning [simp]: "consistent (pushWarning r w c) = consistent c"
  by (rule consistent_localScans) simp

lemma consistent_Scanning:
  "consistent c \<Longrightarrow> consistent (setScanJob u Scanning c)"
  by (auto simp: consistent_def setScanJob_def)

lemma consistent_AwaitingReady:
  "consistent c \<Longrightarrow> consistent (setScanJob u (AwaitingReady r) c)"
  by (auto simp: consistent_def setScanJob_def)

lemma consistent_ScanFailed:
  "consistent c \<Longrightarrow> scannedDocumentPromises c u = Some (Rejected e) \<Longrightarrow>
   consistent (setScanJob u (ScanFailed e) c)"
  by (auto simp: consistent_def setScanJob_def)

lemma scanImports_consistent_aux:
  assumes "\<And>u contents c j c'. consistent c \<Longrightarrow> scanLaunch n ext ctx u contents c = Some (j, c') \<Longrightarrow>
             consistent c'"
  shows "consistent c \<Longrightarrow> scanImports n ext ctx r fs c = Some c' \<Longrightarrow> consistent c'"
proof (induction fs arbitrary: c)
  case Nil
  then show ?case by simp
next
  case (Cons f fs)
  from Cons.prems(2) obtain j c1 where
    l: "scanLaunch n ext ctx (resolveUrl ctx (importUrl f)) Undefined c = Some (j, c1)"
    by (auto split: option.splits)
  from assms[OF Cons.prems(1) l] have c1: "consistent c1" .
  show ?case
  proof (cases j)
    case (ScanFailed e)
    with Cons.prems(2) l have "scanImports n ext ctx r fs (pushWarning r (couldNotLoad e f) c1) = Some c'"
      by simp
    with c1 Cons.IH[of "pushWarning r (couldNotLoad e f) c1"] show ?thesis by simp
  next
    case Scanning
    with Cons.prems(2) l c1 Cons.IH[of c1] show ?thesis by simp
  next
    case (AwaitingReady x)
    with Cons.prems(2) l c1 Cons.IH[of c1] show ?thesis by simp
  qed
qed

lemma scanLaunch_consistent:
  "consistent c \<Longrightarrow> scanLaunch n ext ctx u contents c = Some (j, c') \<Longrightarrow> consistent c'"
proof (induction n arbitrary: u contents c j c')
  case 0
  then show ?case by simp
next
  case (Suc n)
  have imp: "\<And>r fs c c'. consistent c \<Longrightarrow> scanImports n ext ctx r fs c = Some c' \<Longrightarrow> consistent c'"
    by (rule scanImports_consistent_aux[where n = n]) (rule Suc.IH)
  show ?case
  proof (cases "dependenciesScannedPromises c u")
    case (Some x)
    with Suc.prems show ?thesis by simp
  next
    case None
    with Suc.prems(2) obtain p c1 where
      sl: "scanLocal n ext ctx u contents (setScanJob u Scanning c) = Some (p, c1)"
      by (auto split: option.splits)
    from scanLocal_consistent[OF consistent_Scanning[OF Suc.prems(1)] sl]
    have c1: "consistent c1" by simp
    show ?thesis
    proof (cases p)
      case Pending
      with Suc.prems(2) None sl c1 show ?thesis by simp
    next
      case (Rejected e)
      with Suc.prems(2) None sl have "c' = setScanJob u (ScanFailed e) c1" by auto
      with consistent_ScanFailed[OF c1] scanLocal_entry[OF sl] Rejected show ?thesis by simp
    next
      case (Fulfilled r)
      with Suc.prems(2) None sl
      have "scanImports n ext ctx r (eagerImports ext c1 r) (setScanJob u (AwaitingReady r) c1) = Some c'"
        by (auto split: option.splits)
      from imp[OF consistent_AwaitingReady[OF c1] this] show ?thesis .
    qed
  qed
qed

lemma getDeferredFor_successors:
  assumes "getDeferredFor k s = (d, s')"
  shows "successors s' = successors s"
proof
  fix x
  from assms show "successors s' x = successors s x"
    by (cases "x = k")
       (auto simp: getDeferredFor_def successors_def Let_def new_Deferred_def split: option.splits)
qed

lemma awaitDeps_successors_aux:
  assumes "\<And>key V L (s::'k promise_all) t s'.
             transitiveAwait n key V L s = Some (t, s') \<Longrightarrow> successors s' = successors s"
  shows "awaitDeps n ds V L (s::'k promise_all) = Some (t, s') \<Longrightarrow> successors s' = successors s"
proof (induction ds arbitrary: V L s)
  case Nil
  then show ?case by simp
next
  case (Cons d ds)
  from Cons.prems obtain t1 s1 where r1: "transitiveAwait n d V L s = Some (t1, s1)"
    by (cases "transitiveAwait n d V L s") auto
  from assms[OF r1] have s1: "successors s1 = successors s" .
  show ?case
  proof (cases t1)
    case (Blocked k)
    with Cons.prems r1 s1 show ?thesis by auto
  next
    case (Returned V1 L1)
    with Cons.prems r1 have "awaitDeps n ds V1 L1 s1 = Some (t, s')" by simp
    from Cons.IH[OF this] s1 show ?thesis by simp
  qed
qed

lemma transitiveAwait_successors:
  "transitiveAwait n key V L s = Some (t, s') \<Longrightarrow> successors s' = successors s"
proof (induction n arbitrary: key V L s t s')
  case 0
  then show ?case by simp
next
  case (Suc n)
  have loop: "\<And>ds V L (s::'a promise_all) t s'.
      awaitDeps n ds V L s = Some (t, s') \<Longrightarrow> successors s' = successors s"
    by (rule awaitDeps_successors_aux[where n = n]) (rule Suc.IH)
  obtain d s1 where g: "getDeferredFor key s = (d, s1)" by (cases "getDeferredFor key s")
  from getDeferredFor_successors[OF g] have s1: "successors s1 = successors s" .
  from Suc.prems g s1 show ?case
    by (auto split: if_splits option.splits dest!: loop)
qed

lemma scan_consistent:
  assumes "consistent c" and "scan n ext ctx u contents c = Some (p, c')"
  shows "consistent c'"
proof -
  from assms(2) obtain j c1 where l: "scanLaunch n ext ctx u contents c = Some (j, c1)"
    and r: "scanResult n u c1 = Some (p, c')"
    by (auto simp: scan_def split: option.splits)
  from scanLaunch_consistent[OF assms(1) l] have c1: "consistent c1" .
  from r have "c' = c1 \<or> (\<exists>t g. whenReady n u (dependencyGraph c1) = Some (t, g) \<and>
      c' = c1\<lparr> dependencyGraph := g \<rparr>)"
    by (auto simp: scanResult_def split: option.splits scan_job.splits traversal.splits)
  then show ?thesis
  proof
    assume "c' = c1" with c1 show ?thesis by simp
  next
    assume "\<exists>t g. whenReady n u (dependencyGraph c1) = Some (t, g) \<and> c' = c1\<lparr> dependencyGraph := g \<rparr>"
    then obtain t g where w: "transitiveAwait n u {} [] (dependencyGraph c1) = Some (t, g)"
      and c': "c' = c1\<lparr> dependencyGraph := g \<rparr>"
      by (auto simp: whenReady_def promiseAllTransitive_def)
    from transitiveAwait_successors[OF w] c1 show ?thesis
      unfolding c' consistent_def by simp
  qed
qed

lemma failed_import_never_ready:
  assumes "consistent c" and "scan n ext ctx u contents c = Some (p, c')"
    and "successors (dependencyGraph c') u = Some ds" and "k \<in> set ds"
    and "dependenciesScannedPromises c' k = Some (ScanFailed e)"
  shows "p \<noteq> Fulfilled r"
proof
  assume p: "p = Fulfilled r"
  from scan_consistent[OF assms(1,2)] have c': "consistent c'" .
  with assms(5) have "scannedDocumentPromises c' k = Some (Rejected e)" by (simp add: consistent_def)
  with c' have unrec: "successors (dependencyGraph c') k = None"
    by (cases "successors (dependencyGraph c') k") (auto simp: consistent_def)
  from assms(3,4) have reach: "k \<in> reachable (dependencyGraph c') u"
    using reachable_step[OF assms(3) assms(4)] reachable_refl[of k "dependencyGraph c'"] by blast
  from assms(2) p obtain j c1 where r: "scanResult n u c1 = Some (Fulfilled r, c')"
    by (auto simp: scan_def split: option.splits)
  then obtain V L g where w: "whenReady n u (dependencyGraph c1) = Some (Returned V L, g)"
    and cc: "c' = c1\<lparr> dependencyGraph := g \<rparr>"
    by (auto simp: scanResult_def split: option.splits scan_job.splits traversal.splits)
  from w have pa: "promiseAllTransitive n u (dependencyGraph c1) = Some (Returned V L, g)"
    by (simp add: whenReady_def)
  from promiseAllTransitive_sound[OF pa] have "g = dependencyGraph c1" by simp
  with cc have "dependencyGraph c' = dependencyGraph c1" by simp
  with whenReady_waits_for_unrecorded[OF reach unrec, of n V L g] w show False by simp
qed


end
